theory Spec2Isabelle
  imports Main "HOL-Library.Extended_Nat" "HOL-Library.AList"
begin

section \<open>Collaborators of the pathfinding module\<close>

text \<open>
  The module \<^verbatim>\<open>src/lib/pathfinding.ts\<close> imports the hex coordinate class, the
  priority queue, the memoization cache and the enumerations of tile states and teams.
  Their sources are not part of the verified files, so they are modelled here from the
  design document; everything from \<open>PathNode\<close> on is translated from
  \<^verbatim>\<open>pathfinding.ts\<close> itself.
\<close>

subsection \<open>Hex coordinates\<close>

text \<open>
  Modelled from the spec: the class \<open>Hex\<close> of \<^verbatim>\<open>./hex\<close> is missing. A hex is a cube
  coordinate triple \<open>(q, r, s)\<close> together with the integer identifier that \<open>getId()\<close>
  exposes.
\<close>

record Hex =
  q :: int
  r :: int
  s :: int
  hid :: int

text \<open>Modelled from the spec: \<open>getId()\<close>, the stable integer identifier of a hex.\<close>

definition getId :: "Hex \<Rightarrow> int" where
  "getId a = hid a"

text \<open>
  Modelled from the spec: \<open>equals\<close>, equality of hexes as coordinates (the identifier
  takes no part in it).
\<close>

definition equals :: "Hex \<Rightarrow> Hex \<Rightarrow> bool" where
  "equals a b \<longleftrightarrow> q a = q b \<and> r a = r b \<and> s a = s b"

text \<open>
  Modelled from the spec: \<open>toString()\<close>, the canonical form of a hex used as the key of
  sets and maps. The model takes the coordinate triple itself as the canonical form.
\<close>

type_synonym hexkey = "int \<times> int \<times> int"

definition toString :: "Hex \<Rightarrow> hexkey" where
  "toString a = (q a, r a, s a)"

text \<open>
  Modelled from the spec: \<open>distance\<close>, the hex-grid metric, half the sum of the absolute
  coordinate differences (an integer under the invariant \<open>q + r + s = 0\<close>).
\<close>

definition distance :: "Hex \<Rightarrow> Hex \<Rightarrow> nat" where
  "distance a b = nat ((\<bar>q a - q b\<bar> + \<bar>r a - r b\<bar> + \<bar>s a - s b\<bar>) div 2)"

text \<open>
  Modelled from the spec: the six direction vectors in a fixed order, and \<open>neighbor\<close>,
  which adds the vector of a direction index \<open>0..5\<close> to a hex. The spec does not say
  which identifier a computed neighbour carries; the model gives it \<open>-1\<close> (no identifier
  assigned). The pathfinding functions never read the identifier of a computed neighbour.
\<close>

definition directions :: "(int \<times> int \<times> int) list" where
  "directions = [(1, 0, -1), (1, -1, 0), (0, -1, 1), (-1, 0, 1), (-1, 1, 0), (0, 1, -1)]"

definition neighbor :: "Hex \<Rightarrow> nat \<Rightarrow> Hex" where
  "neighbor a direction =
     (case directions ! direction of
        (dq, dr, ds) \<Rightarrow> \<lparr>q = q a + dq, r = r a + dr, s = s a + ds, hid = -1\<rparr>)"

subsection \<open>Tiles\<close>

text \<open>
  Modelled from the spec: the enumerations \<open>State\<close> and \<open>Team\<close> and the record
  \<open>GridTile\<close> of \<^verbatim>\<open>./grid\<close> are missing; their members are the ones the verified files
  use.
\<close>

datatype State =
  DEFAULT | AVAILABLE_ALLY | AVAILABLE_ENEMY | OCCUPIED_ALLY | OCCUPIED_ENEMY
  | BLOCKED | BLOCKED_BREAKABLE

datatype Team = ALLY | ENEMY

record GridTile =
  hex :: Hex
  state :: State
  team :: "Team option"
  character :: "string option"

subsection \<open>Priority queue\<close>

text \<open>
  Modelled from the spec: the class \<open>PriorityQueue\<close> of \<^verbatim>\<open>./priorityQueue\<close> is missing.
  The queue is a list of items with their priorities, kept in ascending order of
  priority; an item is inserted behind the entries of the same priority, \<open>dequeue\<close>
  removes the head, and \<open>updatePriority\<close> relocates the entry that the equality predicate
  matches (and does nothing when there is none).
\<close>

type_synonym 'a PriorityQueue = "('a \<times> nat) list"

definition enqueue :: "'a \<Rightarrow> nat \<Rightarrow> 'a PriorityQueue \<Rightarrow> 'a PriorityQueue" where
  "enqueue item priority pq =
     takeWhile (\<lambda>e. snd e \<le> priority) pq @ (item, priority) # dropWhile (\<lambda>e. snd e \<le> priority) pq"

definition dequeue :: "'a PriorityQueue \<Rightarrow> ('a \<times> 'a PriorityQueue) option" where
  "dequeue pq = (case pq of [] \<Rightarrow> None | e # rest \<Rightarrow> Some (fst e, rest))"

definition isEmpty :: "'a PriorityQueue \<Rightarrow> bool" where
  "isEmpty pq \<longleftrightarrow> pq = []"

definition updatePriority ::
  "'a \<Rightarrow> nat \<Rightarrow> ('a \<Rightarrow> 'a \<Rightarrow> bool) \<Rightarrow> 'a PriorityQueue \<Rightarrow> 'a PriorityQueue" where
  "updatePriority item newPriority eq pq =
     (if \<exists>e \<in> set pq. eq (fst e) item
      then enqueue item newPriority (filter (\<lambda>e. \<not> eq (fst e) item) pq)
      else pq)"

subsection \<open>Memoization cache\<close>

text \<open>
  Modelled from the spec: the class \<open>MemoCache\<close> of \<^verbatim>\<open>./memoization\<close> is missing. It is a
  bounded associative cache with least-recently-used eviction: the entries are listed
  from the least to the most recently used, \<open>get\<close> moves the entry it finds to the end,
  and \<open>set\<close> stores at the end and evicts the head when the capacity is exceeded.
\<close>

record ('k, 'v) MemoCache =
  entries :: "('k \<times> 'v) list"
  maxSize :: nat

definition newMemoCache :: "nat \<Rightarrow> ('k, 'v) MemoCache" where
  "newMemoCache n = \<lparr>entries = [], maxSize = n\<rparr>"

definition memo_get :: "'k \<Rightarrow> ('k, 'v) MemoCache \<Rightarrow> 'v option \<times> ('k, 'v) MemoCache" where
  "memo_get k c =
     (case map_of (entries c) k of
        None \<Rightarrow> (None, c)
      | Some v \<Rightarrow> (Some v, c\<lparr>entries := filter (\<lambda>e. fst e \<noteq> k) (entries c) @ [(k, v)]\<rparr>))"

definition memo_set :: "'k \<Rightarrow> 'v \<Rightarrow> ('k, 'v) MemoCache \<Rightarrow> ('k, 'v) MemoCache" where
  "memo_set k v c =
     (let es = filter (\<lambda>e. fst e \<noteq> k) (entries c) @ [(k, v)]
      in c\<lparr>entries := (if maxSize c < length es then tl es else es)\<rparr>)"

definition memo_clear :: "('k, 'v) MemoCache \<Rightarrow> ('k, 'v) MemoCache" where
  "memo_clear c = c\<lparr>entries := []\<rparr>"

definition memo_size :: "('k, 'v) MemoCache \<Rightarrow> nat" where
  "memo_size c = length (entries c)"

text \<open>
  Modelled from the spec: \<open>generatePathCacheKey\<close> of \<^verbatim>\<open>./memoization\<close> is missing; the
  key is derived deterministically from the start identifier, the goal identifier and
  the range, and the model takes the triple itself.
\<close>

type_synonym pathkey = "int \<times> int \<times> int"

definition generatePathCacheKey :: "int \<Rightarrow> int \<Rightarrow> int \<Rightarrow> pathkey" where
  "generatePathCacheKey startId goalId rng = (startId, goalId, rng)"

section \<open>Types of the pathfinding module\<close>

text \<open>
  A \<open>PathNode\<close> of the source is a mutable object shared by the node table, the open
  queue and the parent links of its children. A node becomes a parent only when it is
  dequeued, it is closed at that moment, and a closed node is never written again (the
  neighbour loop skips closed keys); so a parent link can hold the value of the parent.
  A write to an open node is applied to its entry in the node table and in the queue.
\<close>

datatype PathNode =
  PathNode (node_hex: Hex) (node_g: nat) (node_h: nat) (node_f: nat)
    (node_parent: "PathNode option")

record DistanceResult =
  movementDistance :: enat
  canReach :: bool
  directDistance :: nat

record RangedDistanceResult =
  rangedMovementDistance :: enat
  rangedCanReach :: bool
  reachableTargets :: "Hex list"

record TargetResult =
  hexId :: int
  targetDistance :: enat

record TargetInfo =
  enemyHexId :: "int option"
  allyHexId :: "int option"
  infoDistance :: enat

type_synonym TargetMap = "(int \<times> TargetInfo) list"

subsection \<open>The cache of the module\<close>

text \<open>
  The aggregate caches are keyed by \<open>generateGridCacheKey\<close>, whose source is missing;
  its key type is the parameter \<open>'k\<close>.
\<close>

record 'k PathfindingCache =
  pathCache :: "(pathkey, Hex list option) MemoCache"
  effectiveDistanceCache :: "(pathkey, DistanceResult) MemoCache"
  closestEnemyCache :: "('k, TargetMap) MemoCache"
  closestAllyCache :: "('k, TargetMap) MemoCache"

definition newPathfindingCache :: "'k PathfindingCache" where
  "newPathfindingCache =
     \<lparr>pathCache = newMemoCache 500, effectiveDistanceCache = newMemoCache 500,
      closestEnemyCache = newMemoCache 100, closestAllyCache = newMemoCache 100\<rparr>"

definition getEffectiveDistance ::
  "pathkey \<Rightarrow> 'k PathfindingCache \<Rightarrow> DistanceResult option \<times> 'k PathfindingCache" where
  "getEffectiveDistance key cache =
     (case memo_get key (effectiveDistanceCache cache) of
        (v, c) \<Rightarrow> (v, cache\<lparr>effectiveDistanceCache := c\<rparr>))"

definition setEffectiveDistance ::
  "pathkey \<Rightarrow> DistanceResult \<Rightarrow> 'k PathfindingCache \<Rightarrow> 'k PathfindingCache" where
  "setEffectiveDistance key v cache =
     cache\<lparr>effectiveDistanceCache := memo_set key v (effectiveDistanceCache cache)\<rparr>"

definition getClosestEnemyMapCache ::
  "'k \<Rightarrow> 'k PathfindingCache \<Rightarrow> TargetMap option \<times> 'k PathfindingCache" where
  "getClosestEnemyMapCache key cache =
     (case memo_get key (closestEnemyCache cache) of
        (v, c) \<Rightarrow> (v, cache\<lparr>closestEnemyCache := c\<rparr>))"

definition setClosestEnemyMapCache ::
  "'k \<Rightarrow> TargetMap \<Rightarrow> 'k PathfindingCache \<Rightarrow> 'k PathfindingCache" where
  "setClosestEnemyMapCache key v cache =
     cache\<lparr>closestEnemyCache := memo_set key v (closestEnemyCache cache)\<rparr>"

definition getClosestAllyMapCache ::
  "'k \<Rightarrow> 'k PathfindingCache \<Rightarrow> TargetMap option \<times> 'k PathfindingCache" where
  "getClosestAllyMapCache key cache =
     (case memo_get key (closestAllyCache cache) of
        (v, c) \<Rightarrow> (v, cache\<lparr>closestAllyCache := c\<rparr>))"

definition setClosestAllyMapCache ::
  "'k \<Rightarrow> TargetMap \<Rightarrow> 'k PathfindingCache \<Rightarrow> 'k PathfindingCache" where
  "setClosestAllyMapCache key v cache =
     cache\<lparr>closestAllyCache := memo_set key v (closestAllyCache cache)\<rparr>"

definition getStats :: "'k PathfindingCache \<Rightarrow> nat \<times> nat \<times> nat \<times> nat" where
  "getStats cache =
     (memo_size (pathCache cache), memo_size (effectiveDistanceCache cache),
      memo_size (closestEnemyCache cache), memo_size (closestAllyCache cache))"

section \<open>Core pathfinding algorithms\<close>

subsection \<open>findPath\<close>

record SearchState =
  openSet :: "PathNode PriorityQueue"
  closedSet :: "hexkey set"
  nodeMap :: "hexkey \<rightharpoonup> PathNode"

text \<open>The walk over the parent links that rebuilds the path, front first.\<close>

fun reconstruct :: "PathNode \<Rightarrow> Hex list \<Rightarrow> Hex list" where
  "reconstruct (PathNode a cg ch cf None) path = a # path"
| "reconstruct (PathNode a cg ch cf (Some p)) path = reconstruct p (a # path)"

text \<open>The body of the loop over the six directions, for one direction.\<close>

definition visitNeighbor ::
  "Hex \<Rightarrow> (Hex \<Rightarrow> GridTile option) \<Rightarrow> (GridTile \<Rightarrow> bool) \<Rightarrow> PathNode \<Rightarrow> nat
     \<Rightarrow> SearchState \<Rightarrow> SearchState" where
  "visitNeighbor goal getTile canTraverse current direction st =
     (let nb = neighbor (node_hex current) direction;
          neighborKey = toString nb
      in if neighborKey \<in> closedSet st then st
         else case getTile nb of
           None \<Rightarrow> st
         | Some tile \<Rightarrow>
             if \<not> canTraverse tile then st
             else let tentativeG = node_g current + 1
               in case nodeMap st neighborKey of
                 None \<Rightarrow>
                   let neighborNode = PathNode nb tentativeG (distance nb goal)
                         (tentativeG + distance nb goal) (Some current)
                   in st\<lparr>openSet := enqueue neighborNode (node_f neighborNode) (openSet st),
                         nodeMap := (nodeMap st)(neighborKey \<mapsto> neighborNode)\<rparr>
               | Some neighborNode \<Rightarrow>
                   if tentativeG < node_g neighborNode
                   then let updated = PathNode (node_hex neighborNode) tentativeG
                              (node_h neighborNode) (tentativeG + node_h neighborNode)
                              (Some current)
                     in st\<lparr>openSet := updatePriority updated (node_f updated)
                                (\<lambda>a b. equals (node_hex a) (node_hex b)) (openSet st),
                           nodeMap := (nodeMap st)(neighborKey \<mapsto> updated)\<rparr>
                   else st)"

definition expand ::
  "Hex \<Rightarrow> (Hex \<Rightarrow> GridTile option) \<Rightarrow> (GridTile \<Rightarrow> bool) \<Rightarrow> PathNode
     \<Rightarrow> SearchState \<Rightarrow> SearchState" where
  "expand goal getTile canTraverse current st =
     fold (visitNeighbor goal getTile canTraverse current) [0..<6] st"

text \<open>
  The main loop. It has no iteration bound and need not return on an unbounded grid, so
  it is a partial function: \<open>None\<close> is a search that does not return, \<open>Some None\<close> is
  the result \<^verbatim>\<open>null\<close>, \<open>Some (Some path)\<close> is a path.
\<close>

partial_function (option) findPathLoop ::
  "Hex \<Rightarrow> (Hex \<Rightarrow> GridTile option) \<Rightarrow> (GridTile \<Rightarrow> bool) \<Rightarrow> SearchState
     \<Rightarrow> Hex list option option" where
  "findPathLoop goal getTile canTraverse st =
     (case dequeue (openSet st) of
        None \<Rightarrow> Some None
      | Some (current, rest) \<Rightarrow>
          if equals (node_hex current) goal then Some (Some (reconstruct current []))
          else findPathLoop goal getTile canTraverse
                 (expand goal getTile canTraverse current
                    (st\<lparr>openSet := rest,
                        closedSet := insert (toString (node_hex current)) (closedSet st)\<rparr>)))"

declare findPathLoop.simps [code]

definition findPath ::
  "Hex \<Rightarrow> Hex \<Rightarrow> (Hex \<Rightarrow> GridTile option) \<Rightarrow> (GridTile \<Rightarrow> bool) \<Rightarrow> Hex list option option" where
  "findPath start goal getTile canTraverse =
     (let startNode = PathNode start 0 (distance start goal) (distance start goal) None
      in findPathLoop goal getTile canTraverse
           \<lparr>openSet = enqueue startNode (node_f startNode) [],
            closedSet = {},
            nodeMap = [toString start \<mapsto> startNode]\<rparr>)"

subsection \<open>calculateEffectiveDistance\<close>

text \<open>
  The function returns the result together with the cache it leaves behind; it does not
  return when the path search it runs does not.
\<close>

definition calculateEffectiveDistance ::
  "Hex \<Rightarrow> Hex \<Rightarrow> int \<Rightarrow> (Hex \<Rightarrow> GridTile option) \<Rightarrow> (GridTile \<Rightarrow> bool) \<Rightarrow> bool
     \<Rightarrow> 'k PathfindingCache \<Rightarrow> (DistanceResult \<times> 'k PathfindingCache) option" where
  "calculateEffectiveDistance start goal rng getTile canTraverse cachingEnabled cache =
     (let cacheKey = generatePathCacheKey (getId start) (getId goal) rng;
          lookedUp = (if cachingEnabled then getEffectiveDistance cacheKey cache
                      else (None, cache));
          cache1 = snd lookedUp
      in case fst lookedUp of
        Some cached \<Rightarrow> Some (cached, cache1)
      | None \<Rightarrow>
          let direct = distance start goal
          in if int direct \<le> rng
             then let result = \<lparr>movementDistance = 0, canReach = True, directDistance = direct\<rparr>
               in Some (result,
                    if cachingEnabled then setEffectiveDistance cacheKey result cache1 else cache1)
             else case findPath start goal getTile canTraverse of
               None \<Rightarrow> None
             | Some None \<Rightarrow>
                 let result = \<lparr>movementDistance = \<infinity>, canReach = False, directDistance = direct\<rparr>
                 in Some (result,
                      if cachingEnabled then setEffectiveDistance cacheKey result cache1 else cache1)
             | Some (Some path) \<Rightarrow>
                 let pathLength = int (length path) - 1;
                     movementNeeded = max 0 (pathLength - rng);
                     result = \<lparr>movementDistance = enat (nat movementNeeded), canReach = True,
                               directDistance = direct\<rparr>
                 in Some (result,
                      if cachingEnabled then setEffectiveDistance cacheKey result cache1 else cache1))"

subsection \<open>calculateRangedMovementDistance\<close>

record BfsState =
  visited :: "hexkey set"
  nextQueue :: "Hex list"
  reachableAtThisDistance :: "Hex list"

text \<open>The body of the loop over the six directions of one frontier hex, for one direction.\<close>

definition bfsVisit ::
  "Hex list \<Rightarrow> int \<Rightarrow> (Hex \<Rightarrow> GridTile option) \<Rightarrow> (GridTile \<Rightarrow> bool) \<Rightarrow> Hex \<Rightarrow> nat
     \<Rightarrow> BfsState \<Rightarrow> BfsState" where
  "bfsVisit targets rng getTile canTraverse currentHex direction st =
     (let nb = neighbor currentHex direction;
          neighborKey = toString nb
      in if neighborKey \<in> visited st then st
         else case getTile nb of
           None \<Rightarrow> st
         | Some tile \<Rightarrow>
             if \<not> canTraverse tile then st
             else st\<lparr>visited := insert neighborKey (visited st),
                     nextQueue := nextQueue st @ [nb],
                     reachableAtThisDistance := reachableAtThisDistance st @
                       filter (\<lambda>target. int (distance nb target) \<le> rng) targets\<rparr>)"

definition bfsLayer ::
  "Hex list \<Rightarrow> int \<Rightarrow> (Hex \<Rightarrow> GridTile option) \<Rightarrow> (GridTile \<Rightarrow> bool) \<Rightarrow> Hex list
     \<Rightarrow> BfsState \<Rightarrow> BfsState" where
  "bfsLayer targets rng getTile canTraverse currentQueue st =
     fold (\<lambda>currentHex. fold (bfsVisit targets rng getTile canTraverse currentHex) [0..<6])
       currentQueue st"

text \<open>
  The removal of duplicates: the distinct canonical forms in the order of their first
  occurrence, each mapped back to the first hex that has it.
\<close>

definition firstOccurrences :: "'a list \<Rightarrow> 'a list" where
  "firstOccurrences xs = fold (\<lambda>x acc. if x \<in> set acc then acc else acc @ [x]) xs []"

definition uniqueTargets :: "Hex list \<Rightarrow> Hex list" where
  "uniqueTargets xs =
     List.map_filter (\<lambda>str. find (\<lambda>a. toString a = str) xs) (firstOccurrences (map toString xs))"

text \<open>
  The layered search. With the result it returns the value of \<open>currentMoves\<close> at the
  moment it returns, the number of layers it has completed without success.
\<close>

function bfsLoop ::
  "Hex list \<Rightarrow> int \<Rightarrow> (Hex \<Rightarrow> GridTile option) \<Rightarrow> (GridTile \<Rightarrow> bool) \<Rightarrow> nat \<Rightarrow> Hex list
     \<Rightarrow> hexkey set \<Rightarrow> RangedDistanceResult \<times> nat" where
  "bfsLoop targets rng getTile canTraverse currentMoves currentQueue vis =
     (if currentQueue \<noteq> [] \<and> currentMoves < 20
      then let st = bfsLayer targets rng getTile canTraverse currentQueue
                      \<lparr>visited = vis, nextQueue = [], reachableAtThisDistance = []\<rparr>
        in if reachableAtThisDistance st \<noteq> []
           then (\<lparr>rangedMovementDistance = enat (currentMoves + 1), rangedCanReach = True,
                  reachableTargets = uniqueTargets (reachableAtThisDistance st)\<rparr>, currentMoves)
           else bfsLoop targets rng getTile canTraverse (currentMoves + 1) (nextQueue st)
                  (visited st)
      else (\<lparr>rangedMovementDistance = \<infinity>, rangedCanReach = False, reachableTargets = []\<rparr>,
            currentMoves))"
  by pat_completeness auto
termination
  by (relation "measure (\<lambda>(targets, rng, getTile, canTraverse, currentMoves, currentQueue, vis).
        20 - currentMoves)") auto

declare bfsLoop.simps [simp del]

definition calculateRangedMovementDistance ::
  "Hex \<Rightarrow> Hex list \<Rightarrow> int \<Rightarrow> (Hex \<Rightarrow> GridTile option) \<Rightarrow> (GridTile \<Rightarrow> bool)
     \<Rightarrow> RangedDistanceResult" where
  "calculateRangedMovementDistance start targets rng getTile canTraverse =
     (if targets = []
      then \<lparr>rangedMovementDistance = \<infinity>, rangedCanReach = False, reachableTargets = []\<rparr>
      else let immediateTargets = filter (\<lambda>target. int (distance start target) \<le> rng) targets
        in if immediateTargets \<noteq> []
           then \<lparr>rangedMovementDistance = 0, rangedCanReach = True,
                 reachableTargets = immediateTargets\<rparr>
           else fst (bfsLoop targets rng getTile canTraverse 0 [start] {toString start}))"

section \<open>Utility functions\<close>

definition defaultCanTraverse :: "GridTile \<Rightarrow> bool" where
  "defaultCanTraverse tile \<longleftrightarrow> state tile \<noteq> BLOCKED \<and> state tile \<noteq> BLOCKED_BREAKABLE"

definition rowEndings :: "int list" where
  "rowEndings = [2, 5, 7, 10, 14, 17, 21, 24, 28, 31, 35, 38, 40, 43, 45]"

text \<open>The loop over the table of row endings, from index \<open>i\<close> on.\<close>

fun findRow :: "int \<Rightarrow> int list \<Rightarrow> nat \<Rightarrow> nat option" where
  "findRow ident [] i = None"
| "findRow ident (e # es) i = (if ident \<le> e then Some (i + 1) else findRow ident es (i + 1))"

text \<open>The fallback loop for identifiers beyond the table.\<close>

function fallbackRow :: "int \<Rightarrow> int \<Rightarrow> nat \<Rightarrow> nat" where
  "fallbackRow ident currentEnd rowNum =
     (if ident > currentEnd
      then let rowSize = (if rowNum mod 4 = 1 \<and> rowNum > 4 then 4
                          else if rowNum mod 2 = 0 then 3 else 2);
               currentEnd' = currentEnd + rowSize;
               rowNum' = rowNum + 1
        in if ident \<le> currentEnd' then rowNum'
           else fallbackRow ident currentEnd' rowNum'
      else rowNum)"
  by pat_completeness auto
termination
  by (relation "measure (\<lambda>(ident, currentEnd, rowNum). nat (ident - currentEnd))") auto

declare fallbackRow.simps [simp del]

definition getRowNumber :: "int \<Rightarrow> nat" where
  "getRowNumber ident =
     (case findRow ident rowEndings 0 of
        Some n \<Rightarrow> n
      | None \<Rightarrow> fallbackRow ident 45 16)"

definition areHexesInSameDiagonalRow :: "int \<Rightarrow> int \<Rightarrow> bool" where
  "areHexesInSameDiagonalRow hexId1 hexId2 \<longleftrightarrow> getRowNumber hexId1 = getRowNumber hexId2"

definition isVerticallyAligned :: "Hex \<Rightarrow> Hex \<Rightarrow> bool" where
  "isVerticallyAligned sourceHex targetHex \<longleftrightarrow> q sourceHex = q targetHex"

section \<open>Target selection and tie-breaking\<close>

text \<open>
  The functions below return \<open>None\<close> when the call does not return a value: a path
  search they run does not return, or the lookup of the running best among the target
  tiles, which the source asserts to succeed, finds nothing.
\<close>

text \<open>The body of the tie-breaking loop over the candidates of a ranged unit.\<close>

definition rangedTieBreak :: "GridTile \<Rightarrow> GridTile \<Rightarrow> GridTile \<Rightarrow> GridTile" where
  "rangedTieBreak sourceTile currentTarget bestTarget =
     (let currentIsVertical = isVerticallyAligned (hex sourceTile) (hex currentTarget);
          bestIsVertical = isVerticallyAligned (hex sourceTile) (hex bestTarget)
      in if currentIsVertical \<and> \<not> bestIsVertical then currentTarget
         else if \<not> currentIsVertical \<and> bestIsVertical then bestTarget
         else if areHexesInSameDiagonalRow (getId (hex currentTarget)) (getId (hex bestTarget))
           then (if getId (hex currentTarget) < getId (hex bestTarget)
                 then currentTarget else bestTarget)
         else if \<not> currentIsVertical \<and> \<not> bestIsVertical
           then (if distance (hex sourceTile) (hex currentTarget)
                      < distance (hex sourceTile) (hex bestTarget)
                 then currentTarget else bestTarget)
         else bestTarget)"

text \<open>
  The update of the running best of a melee unit by one reachable target at movement
  distance \<open>moveDist\<close>.
\<close>

definition meleeStep ::
  "GridTile \<Rightarrow> GridTile list \<Rightarrow> GridTile \<Rightarrow> enat \<Rightarrow> TargetResult option
     \<Rightarrow> TargetResult option option" where
  "meleeStep sourceTile targetTiles targetTile moveDist closest =
     (let candidate = \<lparr>hexId = getId (hex targetTile), targetDistance = moveDist\<rparr>
      in case closest of
        None \<Rightarrow> Some (Some candidate)
      | Some best \<Rightarrow>
          if moveDist < targetDistance best then Some (Some candidate)
          else if moveDist = targetDistance best
          then let currentIsVertical = isVerticallyAligned (hex sourceTile) (hex targetTile)
            in case find (\<lambda>t. getId (hex t) = hexId best) targetTiles of
              None \<Rightarrow> None
            | Some closestTile \<Rightarrow>
                let closestIsVertical = isVerticallyAligned (hex sourceTile) (hex closestTile)
                in if currentIsVertical \<and> \<not> closestIsVertical then Some (Some candidate)
                   else if \<not> currentIsVertical \<and> closestIsVertical then Some (Some best)
                   else if areHexesInSameDiagonalRow (getId (hex targetTile)) (hexId best)
                     then (if getId (hex targetTile) < hexId best
                           then Some (Some candidate) else Some (Some best))
                   else if \<not> currentIsVertical \<and> \<not> closestIsVertical
                     then (if distance (hex sourceTile) (hex targetTile)
                                < distance (hex sourceTile) (hex closestTile)
                           then Some (Some candidate) else Some (Some best))
                   else Some (Some best)
          else Some (Some best))"

text \<open>The traversal override of a melee unit: the cell of the target is always traversable.\<close>

definition canTraverseToTarget :: "(GridTile \<Rightarrow> bool) \<Rightarrow> GridTile \<Rightarrow> GridTile \<Rightarrow> bool" where
  "canTraverseToTarget canTraverse targetTile tile =
     (if equals (hex tile) (hex targetTile) then True else canTraverse tile)"

text \<open>The loop of a melee unit over the target tiles still to be examined.\<close>

fun meleeLoop ::
  "GridTile \<Rightarrow> GridTile list \<Rightarrow> int \<Rightarrow> (Hex \<Rightarrow> GridTile option) \<Rightarrow> (GridTile \<Rightarrow> bool) \<Rightarrow> bool
     \<Rightarrow> GridTile list \<Rightarrow> TargetResult option \<Rightarrow> 'k PathfindingCache
     \<Rightarrow> (TargetResult option \<times> 'k PathfindingCache) option" where
  "meleeLoop sourceTile targetTiles sourceRange getTile canTraverse cachingEnabled []
     closest cache = Some (closest, cache)"
| "meleeLoop sourceTile targetTiles sourceRange getTile canTraverse cachingEnabled
     (targetTile # rest) closest cache =
     (case calculateEffectiveDistance (hex sourceTile) (hex targetTile) sourceRange getTile
             (canTraverseToTarget canTraverse targetTile) cachingEnabled cache of
        None \<Rightarrow> None
      | Some (effectiveDistance, cache') \<Rightarrow>
          if \<not> canReach effectiveDistance
          then meleeLoop sourceTile targetTiles sourceRange getTile canTraverse cachingEnabled
                 rest closest cache'
          else case meleeStep sourceTile targetTiles targetTile
                      (movementDistance effectiveDistance) closest of
            None \<Rightarrow> None
          | Some closest' \<Rightarrow>
              meleeLoop sourceTile targetTiles sourceRange getTile canTraverse cachingEnabled
                rest closest' cache')"

text \<open>The parameter \<open>gridPreset\<close> of the source is never read and is left out.\<close>

definition findClosestTarget ::
  "GridTile \<Rightarrow> GridTile list \<Rightarrow> int \<Rightarrow> (Hex \<Rightarrow> GridTile option) \<Rightarrow> (GridTile \<Rightarrow> bool) \<Rightarrow> bool
     \<Rightarrow> 'k PathfindingCache \<Rightarrow> (TargetResult option \<times> 'k PathfindingCache) option" where
  "findClosestTarget sourceTile targetTiles sourceRange getTile canTraverse cachingEnabled cache =
     (if targetTiles = [] then Some (None, cache)
      else if sourceRange > 1
      then let targetHexes = map hex targetTiles;
               rangedResult = calculateRangedMovementDistance (hex sourceTile) targetHexes
                                sourceRange getTile canTraverse
        in if \<not> rangedCanReach rangedResult \<or> reachableTargets rangedResult = []
           then Some (None, cache)
           else let candidateTargets =
                      filter (\<lambda>tile. \<exists>reachableHex \<in> set (reachableTargets rangedResult).
                                 equals reachableHex (hex tile)) targetTiles
             in case candidateTargets of
               [] \<Rightarrow> Some (None, cache)
             | first # others \<Rightarrow>
                 let bestTarget = fold (rangedTieBreak sourceTile) others first
                 in Some (Some \<lparr>hexId = getId (hex bestTarget),
                                targetDistance = rangedMovementDistance rangedResult\<rparr>, cache)
      else meleeLoop sourceTile targetTiles sourceRange getTile canTraverse cachingEnabled
             targetTiles None cache)"

section \<open>High-level game APIs\<close>

text \<open>The range of the occupant of a tile: the entry of the range map, 1 by default.\<close>

definition characterRange :: "(string \<rightharpoonup> int) \<Rightarrow> GridTile \<Rightarrow> int" where
  "characterRange characterRanges tile =
     (case character tile of
        None \<Rightarrow> 1
      | Some c \<Rightarrow> if c = [] then 1 else (case characterRanges c of None \<Rightarrow> 1 | Some v \<Rightarrow> v))"

text \<open>The lookup used when the caller supplies none: a scan of the occupied tiles.\<close>

definition getTileHelper ::
  "GridTile list \<Rightarrow> (Hex \<Rightarrow> GridTile option) option \<Rightarrow> Hex \<Rightarrow> GridTile option" where
  "getTileHelper tilesWithCharacters getTile =
     (case getTile of
        Some lookup \<Rightarrow> lookup
      | None \<Rightarrow> (\<lambda>a. find (\<lambda>t. equals (hex t) a) tilesWithCharacters))"

fun closestEnemyLoop ::
  "GridTile list \<Rightarrow> (string \<rightharpoonup> int) \<Rightarrow> (Hex \<Rightarrow> GridTile option) \<Rightarrow> bool \<Rightarrow> GridTile list
     \<Rightarrow> TargetMap \<Rightarrow> 'k PathfindingCache \<Rightarrow> (TargetMap \<times> 'k PathfindingCache) option" where
  "closestEnemyLoop enemyTiles characterRanges lookup cachingEnabled [] result cache =
     Some (result, cache)"
| "closestEnemyLoop enemyTiles characterRanges lookup cachingEnabled (allyTile # rest)
     result cache =
     (case findClosestTarget allyTile enemyTiles (characterRange characterRanges allyTile)
             lookup defaultCanTraverse cachingEnabled cache of
        None \<Rightarrow> None
      | Some (closestEnemy, cache') \<Rightarrow>
          closestEnemyLoop enemyTiles characterRanges lookup cachingEnabled rest
            (case closestEnemy of
               None \<Rightarrow> result
             | Some found \<Rightarrow>
                 AList.update (getId (hex allyTile))
                   \<lparr>enemyHexId = Some (hexId found), allyHexId = None,
                    infoDistance = targetDistance found\<rparr> result)
            cache')"

text \<open>
  \<open>generateGridCacheKey\<close> of \<^verbatim>\<open>./memoization\<close> is missing and is the first parameter of
  the two aggregate functions; the parameter \<open>gridPreset\<close> is never read and is left out.
\<close>

definition getClosestEnemyMap ::
  "(GridTile list \<Rightarrow> (string \<rightharpoonup> int) \<Rightarrow> 'k) \<Rightarrow> GridTile list \<Rightarrow> (string \<rightharpoonup> int) \<Rightarrow> bool
     \<Rightarrow> (Hex \<Rightarrow> GridTile option) option \<Rightarrow> 'k PathfindingCache
     \<Rightarrow> (TargetMap \<times> 'k PathfindingCache) option" where
  "getClosestEnemyMap generateGridCacheKey tilesWithCharacters characterRanges cachingEnabled
     getTile cache =
     (let cacheKey = generateGridCacheKey tilesWithCharacters characterRanges;
          lookedUp = (if cachingEnabled then getClosestEnemyMapCache cacheKey cache
                      else (None, cache))
      in case fst lookedUp of
        Some cached \<Rightarrow> Some (cached, snd lookedUp)
      | None \<Rightarrow>
          let allyTiles = filter (\<lambda>tile. team tile = Some ALLY) tilesWithCharacters;
              enemyTiles = filter (\<lambda>tile. team tile = Some ENEMY) tilesWithCharacters
          in case closestEnemyLoop enemyTiles characterRanges
                    (getTileHelper tilesWithCharacters getTile) cachingEnabled allyTiles []
                    (snd lookedUp) of
            None \<Rightarrow> None
          | Some (result, cache') \<Rightarrow>
              Some (result,
                if cachingEnabled then setClosestEnemyMapCache cacheKey result cache'
                else cache'))"

fun closestAllyLoop ::
  "GridTile list \<Rightarrow> (string \<rightharpoonup> int) \<Rightarrow> (Hex \<Rightarrow> GridTile option) \<Rightarrow> bool \<Rightarrow> GridTile list
     \<Rightarrow> TargetMap \<Rightarrow> 'k PathfindingCache \<Rightarrow> (TargetMap \<times> 'k PathfindingCache) option" where
  "closestAllyLoop allyTiles characterRanges lookup cachingEnabled [] result cache =
     Some (result, cache)"
| "closestAllyLoop allyTiles characterRanges lookup cachingEnabled (enemyTile # rest)
     result cache =
     (case findClosestTarget enemyTile allyTiles (characterRange characterRanges enemyTile)
             lookup defaultCanTraverse cachingEnabled cache of
        None \<Rightarrow> None
      | Some (closestAlly, cache') \<Rightarrow>
          closestAllyLoop allyTiles characterRanges lookup cachingEnabled rest
            (case closestAlly of
               None \<Rightarrow> result
             | Some found \<Rightarrow>
                 AList.update (getId (hex enemyTile))
                   \<lparr>enemyHexId = None, allyHexId = Some (hexId found),
                    infoDistance = targetDistance found\<rparr> result)
            cache')"

definition getClosestAllyMap ::
  "(GridTile list \<Rightarrow> (string \<rightharpoonup> int) \<Rightarrow> 'k) \<Rightarrow> GridTile list \<Rightarrow> (string \<rightharpoonup> int) \<Rightarrow> bool
     \<Rightarrow> (Hex \<Rightarrow> GridTile option) option \<Rightarrow> 'k PathfindingCache
     \<Rightarrow> (TargetMap \<times> 'k PathfindingCache) option" where
  "getClosestAllyMap generateGridCacheKey tilesWithCharacters characterRanges cachingEnabled
     getTile cache =
     (let cacheKey = generateGridCacheKey tilesWithCharacters characterRanges;
          lookedUp = (if cachingEnabled then getClosestAllyMapCache cacheKey cache
                      else (None, cache))
      in case fst lookedUp of
        Some cached \<Rightarrow> Some (cached, snd lookedUp)
      | None \<Rightarrow>
          let allyTiles = filter (\<lambda>tile. team tile = Some ALLY) tilesWithCharacters;
              enemyTiles = filter (\<lambda>tile. team tile = Some ENEMY) tilesWithCharacters
          in case closestAllyLoop allyTiles characterRanges
                    (getTileHelper tilesWithCharacters getTile) cachingEnabled enemyTiles []
                    (snd lookedUp) of
            None \<Rightarrow> None
          | Some (result, cache') \<Rightarrow>
              Some (result,
                if cachingEnabled then setClosestAllyMapCache cacheKey result cache'
                else cache'))"

section \<open>Auxiliary notions for the statements\<close>




subsection \<open>Example boards\<close>

definition mkHex :: "int \<Rightarrow> int \<Rightarrow> int \<Rightarrow> Hex" where
  "mkHex a b i = \<lparr>q = a, r = b, s = - a - b, hid = i\<rparr>"

definition plainTile :: "Hex \<Rightarrow> GridTile" where
  "plainTile a = \<lparr>hex = a, state = DEFAULT, team = None, character = None\<rparr>"

text \<open>The board of all hexes within distance \<open>n\<close> of the origin, every tile traversable.\<close>

definition discGrid :: "nat \<Rightarrow> Hex \<Rightarrow> GridTile option" where
  "discGrid n a = (if distance a (mkHex 0 0 0) \<le> n then Some (plainTile a) else None)"

definition emptyCache :: "unit PathfindingCache" where
  "emptyCache =
     \<lparr>pathCache = newMemoCache 500, effectiveDistanceCache = newMemoCache 500,
      closestEnemyCache = newMemoCache 100, closestAllyCache = newMemoCache 100\<rparr>"

subsection \<open>The diagonal rows as the design document describes them\<close>

text \<open>
  The partition of the identifiers from 1 on into consecutive rows whose sizes run
  through a list of sizes again and again; \<open>cycleRow sizes pos\<close> is the index, from 0, of
  the row of the position \<open>pos\<close>, from 0.
\<close>

fun blockIndex :: "nat \<Rightarrow> nat list \<Rightarrow> nat" where
  "blockIndex pos [] = 0"
| "blockIndex pos (n # ns) = (if pos < n then 0 else 1 + blockIndex (pos - n) ns)"

definition cycleRow :: "nat list \<Rightarrow> nat \<Rightarrow> nat" where
  "cycleRow sizes pos =
     length sizes * (pos div sum_list sizes) + blockIndex (pos mod sum_list sizes) sizes"

text \<open>
  This definition follows the words of the design document, not the source: the row
  sizes cycle 2,3,2,3,4,3,4,3,4,3,4,3,2,3,2 starting from row 1 at identifier 1.
\<close>

definition rowSizeCycle :: "nat list" where
  "rowSizeCycle = [2, 3, 2, 3, 4, 3, 4, 3, 4, 3, 4, 3, 2, 3, 2]"

definition cyclicRow :: "int \<Rightarrow> nat" where
  "cyclicRow ident = 1 + cycleRow rowSizeCycle (nat (ident - 1))"

text \<open>
  The rows that the fallback loop of the source produces beyond identifier 45: sizes
  3,4,3,2 again and again, numbered from 17 at identifier 46.
\<close>

definition fallbackCycle :: "nat list" where
  "fallbackCycle = [3, 4, 3, 2]"

definition fallbackCycleRow :: "int \<Rightarrow> nat" where
  "fallbackCycleRow ident = 17 + cycleRow fallbackCycle (nat (ident - 46))"


text \<open>A board with one ally and one enemy, two steps apart.\<close>

definition unitTile :: "Hex \<Rightarrow> Team \<Rightarrow> string \<Rightarrow> GridTile" where
  "unitTile a tm name =
     \<lparr>hex = a, state = (case tm of ALLY \<Rightarrow> OCCUPIED_ALLY | ENEMY \<Rightarrow> OCCUPIED_ENEMY),
      team = Some tm, character = Some name\<rparr>"

definition duelBoard :: "GridTile list" where
  "duelBoard = [unitTile (mkHex 0 0 1) ALLY ''a'', unitTile (mkHex 2 0 2) ENEMY ''e'']"

definition duelRanges :: "string \<rightharpoonup> int" where
  "duelRanges = map_of [(''a'', 1), (''e'', 2)]"

definition unitKey :: "GridTile list \<Rightarrow> (string \<rightharpoonup> int) \<Rightarrow> unit" where
  "unitKey tiles ranges = ()"


subsection \<open>Notions for the tie-breaking statements\<close>

text \<open>
  The candidate tiles of a ranged unit, as \<open>findClosestTarget\<close> computes them: the target
  tiles whose hex is among the reachable targets of the layered search.
\<close>

definition rangedCandidates ::
  "GridTile \<Rightarrow> GridTile list \<Rightarrow> int \<Rightarrow> (Hex \<Rightarrow> GridTile option) \<Rightarrow> (GridTile \<Rightarrow> bool)
     \<Rightarrow> GridTile list" where
  "rangedCandidates sourceTile targetTiles sourceRange getTile canTraverse =
     filter (\<lambda>tile. \<exists>reachableHex \<in> set (reachableTargets
                 (calculateRangedMovementDistance (hex sourceTile) (map hex targetTiles)
                    sourceRange getTile canTraverse)).
               equals reachableHex (hex tile)) targetTiles"

text \<open>
  The results of the calls of \<open>calculateEffectiveDistance\<close> that the loop of a melee
  unit makes, target by target, with the cache passed from each call to the next.
\<close>

fun meleeDistances ::
  "GridTile \<Rightarrow> int \<Rightarrow> (Hex \<Rightarrow> GridTile option) \<Rightarrow> (GridTile \<Rightarrow> bool) \<Rightarrow> bool
     \<Rightarrow> GridTile list \<Rightarrow> 'k PathfindingCache \<Rightarrow> (GridTile \<times> DistanceResult) list option" where
  "meleeDistances sourceTile sourceRange getTile canTraverse cachingEnabled [] cache = Some []"
| "meleeDistances sourceTile sourceRange getTile canTraverse cachingEnabled (targetTile # rest)
     cache =
     (case calculateEffectiveDistance (hex sourceTile) (hex targetTile) sourceRange getTile
             (canTraverseToTarget canTraverse targetTile) cachingEnabled cache of
        None \<Rightarrow> None
      | Some (effectiveDistance, cache') \<Rightarrow>
          (case meleeDistances sourceTile sourceRange getTile canTraverse cachingEnabled rest
                  cache' of
             None \<Rightarrow> None
           | Some ds \<Rightarrow> Some ((targetTile, effectiveDistance) # ds)))"

text \<open>
  The invariant of the running best of a melee unit before the aligned target \<open>v\<close> at
  the least distance \<open>dv\<close> is examined: the best is not ahead of \<open>v\<close>.
\<close>

definition beforeVertical ::
  "GridTile \<Rightarrow> GridTile list \<Rightarrow> GridTile \<Rightarrow> enat \<Rightarrow> TargetResult option \<Rightarrow> bool" where
  "beforeVertical src tts v dv closest \<longleftrightarrow>
     closest = None
     \<or> (\<exists>b d0. closest = Some \<lparr>hexId = getId (hex b), targetDistance = d0\<rparr> \<and> b \<in> set tts
          \<and> dv \<le> d0
          \<and> (d0 = dv \<longrightarrow> \<not> isVerticallyAligned (hex src) (hex b) \<or> hex b = hex v))"

text \<open>
  An ally at the origin and two enemies three steps away, one with the same \<open>q\<close> and the
  higher identifier, one aside with the lower identifier.
\<close>

definition forkSource :: GridTile where
  "forkSource =
     \<lparr>hex = mkHex 0 0 20, state = OCCUPIED_ALLY, team = Some ALLY, character = Some ''a''\<rparr>"

definition forkAligned :: GridTile where
  "forkAligned =
     \<lparr>hex = mkHex 0 3 30, state = OCCUPIED_ENEMY, team = Some ENEMY, character = Some ''v''\<rparr>"

definition forkAside :: GridTile where
  "forkAside =
     \<lparr>hex = mkHex 3 0 10, state = OCCUPIED_ENEMY, team = Some ENEMY, character = Some ''n''\<rparr>"

subsection \<open>Invariants of the path search\<close>

text \<open>
  A node is linked to the start when the walk over its parent links ends at a node that
  holds the start, each step between hexes at distance 1.
\<close>

fun linked :: "Hex \<Rightarrow> PathNode \<Rightarrow> bool" where
  "linked start (PathNode a cg ch cf None) \<longleftrightarrow> a = start"
| "linked start (PathNode a cg ch cf (Some p)) \<longleftrightarrow> distance (node_hex p) a = 1 \<and> linked start p"

text \<open>Every node of the node table and of the open queue is linked to the start.\<close>

definition searchInv :: "Hex \<Rightarrow> SearchState \<Rightarrow> bool" where
  "searchInv start st \<longleftrightarrow>
     (\<forall>k n. nodeMap st k = Some n \<longrightarrow> toString (node_hex n) = k \<and> linked start n)
     \<and> (\<forall>e \<in> set (openSet st). linked start (fst e))"

text \<open>What is shown of a returned path.\<close>

definition goodPath :: "Hex \<Rightarrow> Hex \<Rightarrow> Hex list \<Rightarrow> bool" where
  "goodPath start goal p \<longleftrightarrow>
     p \<noteq> [] \<and> hd p = start \<and> equals (last p) goal
     \<and> successively (\<lambda>a b. distance a b = 1) p"

text \<open>
  The canonical forms of the cells that the search can enter: the start and the cells
  with a tile that the predicate accepts.
\<close>

definition traversableKeys ::
  "(Hex \<Rightarrow> GridTile option) \<Rightarrow> (GridTile \<Rightarrow> bool) \<Rightarrow> Hex \<Rightarrow> hexkey set" where
  "traversableKeys getTile canTraverse start =
     insert (toString start) (toString ` {a. \<exists>t. getTile a = Some t \<and> canTraverse t})"

text \<open>
  The open queue holds each canonical form at most once, none of them closed, all of them
  in the node table; the measure of the loop is the number of enterable cells not yet
  closed.
\<close>

definition queueKeys :: "PathNode PriorityQueue \<Rightarrow> hexkey list" where
  "queueKeys pq = map (\<lambda>e. toString (node_hex (fst e))) pq"

definition openInv :: "hexkey set \<Rightarrow> SearchState \<Rightarrow> bool" where
  "openInv K st \<longleftrightarrow>
     distinct (queueKeys (openSet st))
     \<and> set (queueKeys (openSet st)) \<subseteq> K - closedSet st
     \<and> set (queueKeys (openSet st)) \<subseteq> dom (nodeMap st)
     \<and> (\<forall>k n. nodeMap st k = Some n \<longrightarrow> toString (node_hex n) = k)"

text \<open>
  The goal cannot be entered: at the goal's coordinates the lookup returns no tile, or a
  tile that the predicate rejects.
\<close>

definition goalBlocked ::
  "Hex \<Rightarrow> (Hex \<Rightarrow> GridTile option) \<Rightarrow> (GridTile \<Rightarrow> bool) \<Rightarrow> bool" where
  "goalBlocked goal getTile canTraverse \<longleftrightarrow>
     (\<forall>a. equals a goal \<longrightarrow> (\<forall>t. getTile a = Some t \<longrightarrow> \<not> canTraverse t))"

text \<open>No node of the search holds the goal.\<close>

definition blockedInv :: "Hex \<Rightarrow> SearchState \<Rightarrow> bool" where
  "blockedInv goal st \<longleftrightarrow>
     (\<forall>e \<in> set (openSet st). \<not> equals (node_hex (fst e)) goal)
     \<and> (\<forall>k n. nodeMap st k = Some n \<longrightarrow> \<not> equals (node_hex n) goal)"

text \<open>
  An unbounded board: the ray of the cells \<open>(k, 0, -k)\<close> with \<open>k \<ge> 0\<close>, all traversable,
  and a goal beside the ray that has no tile. The invariant of the search along the ray:
  one open node at position \<open>k\<close>, the positions before it closed.
\<close>

definition rayGrid :: "Hex \<Rightarrow> GridTile option" where
  "rayGrid a = (if r a = 0 \<and> 0 \<le> q a then Some (plainTile a) else None)"

definition rayStart :: Hex where
  "rayStart = mkHex 0 0 0"

definition rayGoal :: Hex where
  "rayGoal = mkHex 0 1 1"

definition rayKey :: "nat \<Rightarrow> hexkey" where
  "rayKey i = (int i, 0, - int i)"

definition rayInv :: "nat \<Rightarrow> SearchState \<Rightarrow> bool" where
  "rayInv k st \<longleftrightarrow>
     (\<exists>n p. openSet st = [(n, p)] \<and> toString (node_hex n) = rayKey k)
     \<and> closedSet st = rayKey ` {..<k}
     \<and> (\<forall>j. k < j \<longrightarrow> nodeMap st (rayKey j) = None)"

text \<open>A corridor of three listed tiles, the last one blocked.\<close>

definition corridor :: "GridTile list" where
  "corridor =
     [plainTile (mkHex 0 0 1), plainTile (mkHex 1 0 2),
      \<lparr>hex = mkHex 2 0 3, state = BLOCKED, team = None, character = None\<rparr>]"

subsection \<open>Reachability for the layered search\<close>

text \<open>A cell can be entered when the lookup returns a tile that the predicate accepts.\<close>

definition enterable :: "(Hex \<Rightarrow> GridTile option) \<Rightarrow> (GridTile \<Rightarrow> bool) \<Rightarrow> Hex \<Rightarrow> bool" where
  "enterable getTile canTraverse a =
     (case getTile a of None \<Rightarrow> False | Some tile \<Rightarrow> canTraverse tile)"

text \<open>
  The positions reachable from the start in at most \<open>k\<close> steps, each step to a neighbour
  that can be entered.
\<close>

primrec reachable ::
  "(Hex \<Rightarrow> GridTile option) \<Rightarrow> (GridTile \<Rightarrow> bool) \<Rightarrow> Hex \<Rightarrow> nat \<Rightarrow> Hex set" where
  "reachable getTile canTraverse start 0 = {start}"
| "reachable getTile canTraverse start (Suc k) =
     reachable getTile canTraverse start k
     \<union> (\<Union>a \<in> reachable getTile canTraverse start k.
          set (filter (enterable getTile canTraverse) (map (neighbor a) [0..<6])))"

text \<open>A position is within range of some target.\<close>

definition inRange :: "int \<Rightarrow> Hex list \<Rightarrow> Hex \<Rightarrow> bool" where
  "inRange rng targets p \<longleftrightarrow> (\<exists>t \<in> set targets. int (distance p t) \<le> rng)"

text \<open>The board without any tile.\<close>

definition noTiles :: "Hex \<Rightarrow> GridTile option" where
  "noTiles a = None"

text \<open>
  The invariant of one layer of the search: the next queue holds exactly the canonical
  forms visited in this layer, and targets have been collected exactly when a position of
  the next queue is within range.
\<close>

definition layerInv :: "Hex list \<Rightarrow> int \<Rightarrow> hexkey set \<Rightarrow> BfsState \<Rightarrow> bool" where
  "layerInv targets rng V0 st \<longleftrightarrow>
     V0 \<subseteq> visited st
     \<and> toString ` set (nextQueue st) = visited st - V0
     \<and> (reachableAtThisDistance st \<noteq> [] \<longleftrightarrow> (\<exists>nb \<in> set (nextQueue st). inRange rng targets nb))"

text \<open>The canonical forms of the neighbours of a hex that can be entered.\<close>

definition steps :: "(Hex \<Rightarrow> GridTile option) \<Rightarrow> (GridTile \<Rightarrow> bool) \<Rightarrow> Hex \<Rightarrow> hexkey set" where
  "steps getTile canTraverse a =
     toString ` set (filter (enterable getTile canTraverse) (map (neighbor a) [0..<6]))"

text \<open>
  The invariant of the layered search at the head of the loop: the visited set is the set
  of canonical forms of the positions reachable in \<open>k\<close> steps, every visited position
  outside the queue has all its enterable neighbours visited, and no position reached so
  far is within range.
\<close>

definition reachKeys ::
  "(Hex \<Rightarrow> GridTile option) \<Rightarrow> (GridTile \<Rightarrow> bool) \<Rightarrow> Hex \<Rightarrow> nat \<Rightarrow> hexkey set" where
  "reachKeys getTile canTraverse start k = toString ` reachable getTile canTraverse start k"

definition bfsInv ::
  "(Hex \<Rightarrow> GridTile option) \<Rightarrow> (GridTile \<Rightarrow> bool) \<Rightarrow> Hex \<Rightarrow> int \<Rightarrow> Hex list \<Rightarrow> nat
     \<Rightarrow> Hex list \<Rightarrow> hexkey set \<Rightarrow> bool" where
  "bfsInv getTile canTraverse start rng targets k queue vis \<longleftrightarrow>
     vis = reachKeys getTile canTraverse start k
     \<and> toString ` set queue \<subseteq> vis
     \<and> (\<forall>a. toString a \<in> vis \<and> toString a \<notin> toString ` set queue
            \<longrightarrow> steps getTile canTraverse a \<subseteq> vis)
     \<and> (\<forall>p \<in> reachable getTile canTraverse start k. \<not> inRange rng targets p)"

text \<open>What is shown of the outcome of the loop started at layer \<open>n\<close>.\<close>

definition searchOutcome ::
  "(Hex \<Rightarrow> GridTile option) \<Rightarrow> (GridTile \<Rightarrow> bool) \<Rightarrow> Hex \<Rightarrow> int \<Rightarrow> Hex list \<Rightarrow> nat
     \<Rightarrow> RangedDistanceResult \<times> nat \<Rightarrow> bool" where
  "searchOutcome getTile canTraverse start rng targets n R \<longleftrightarrow>
     (rangedCanReach (fst R)
        \<longleftrightarrow> (\<exists>p \<in> reachable getTile canTraverse start 20. inRange rng targets p))
     \<and> (\<not> rangedCanReach (fst R) \<longrightarrow>
          rangedMovementDistance (fst R) = \<infinity> \<and> reachableTargets (fst R) = []
          \<and> snd R \<le> 20
          \<and> reachKeys getTile canTraverse start 20 = reachKeys getTile canTraverse start (snd R))
     \<and> (rangedCanReach (fst R) \<longrightarrow>
          (\<exists>m. rangedMovementDistance (fst R) = enat m \<and> n < m \<and> m \<le> 20))"

text \<open>The number of layers the search of a call has completed when it returns.\<close>

definition completedLayers ::
  "Hex \<Rightarrow> Hex list \<Rightarrow> int \<Rightarrow> (Hex \<Rightarrow> GridTile option) \<Rightarrow> (GridTile \<Rightarrow> bool) \<Rightarrow> nat" where
  "completedLayers start targets rng getTile canTraverse =
     snd (bfsLoop targets rng getTile canTraverse 0 [start] {toString start})"

subsection \<open>The coherence of a cache with a call\<close>

text \<open>
  What a call of \<open>calculateEffectiveDistance\<close> computes when it consults no cache: the
  result of the call with caching disabled (\<open>None\<close> when that call does not return).
\<close>

definition computeDistance ::
  "Hex \<Rightarrow> Hex \<Rightarrow> int \<Rightarrow> (Hex \<Rightarrow> GridTile option) \<Rightarrow> (GridTile \<Rightarrow> bool)
     \<Rightarrow> DistanceResult option" where
  "computeDistance start goal rng getTile canTraverse =
     map_option fst
       (calculateEffectiveDistance start goal rng getTile canTraverse False emptyCache)"

text \<open>Every entry of the distance cache satisfies a relation between keys and results.\<close>

definition entriesOk :: "(pathkey \<Rightarrow> DistanceResult \<Rightarrow> bool) \<Rightarrow> 'k PathfindingCache \<Rightarrow> bool" where
  "entriesOk ok cache \<longleftrightarrow>
     (\<forall>e \<in> set (entries (effectiveDistanceCache cache)). ok (fst e) (snd e))"

text \<open>Tiles with the same hex identifier lie on the same hex.\<close>

definition idsIdentifyHexes :: "GridTile list \<Rightarrow> bool" where
  "idsIdentifyHexes tiles \<longleftrightarrow>
     (\<forall>a \<in> set tiles. \<forall>b \<in> set tiles. getId (hex a) = getId (hex b) \<longrightarrow> hex a = hex b)"

text \<open>
  A result is right for a key when it is what the call computes, uncached, for every pair
  of a source and a target whose key it is; the target's own cell is traversable in that
  call, as in the loop of a melee unit.
\<close>

definition pairOk ::
  "GridTile list \<Rightarrow> GridTile list \<Rightarrow> (GridTile \<Rightarrow> int) \<Rightarrow> (Hex \<Rightarrow> GridTile option)
     \<Rightarrow> (GridTile \<Rightarrow> bool) \<Rightarrow> pathkey \<Rightarrow> DistanceResult \<Rightarrow> bool" where
  "pairOk sources targets rangeOf getTile canTraverse key v \<longleftrightarrow>
     (\<forall>a \<in> set sources. \<forall>t \<in> set targets.
        key = generatePathCacheKey (getId (hex a)) (getId (hex t)) (rangeOf a)
          \<longrightarrow> computeDistance (hex a) (hex t) (rangeOf a) getTile
                (canTraverseToTarget canTraverse t) = Some v)"

text \<open>
  The distance cache is coherent with the searches from the sources to the targets: every
  entry it holds is right for its key.
\<close>

definition distancesCoherent ::
  "GridTile list \<Rightarrow> GridTile list \<Rightarrow> (GridTile \<Rightarrow> int) \<Rightarrow> (Hex \<Rightarrow> GridTile option)
     \<Rightarrow> (GridTile \<Rightarrow> bool) \<Rightarrow> 'k PathfindingCache \<Rightarrow> bool" where
  "distancesCoherent sources targets rangeOf getTile canTraverse cache \<longleftrightarrow>
     entriesOk (pairOk sources targets rangeOf getTile canTraverse) cache"

text \<open>
  A cache is coherent with a call of \<open>calculateEffectiveDistance\<close> when the entry it returns
  under the key of the call, if any, is what the call computes uncached.
\<close>

definition distanceCallCoherent ::
  "Hex \<Rightarrow> Hex \<Rightarrow> int \<Rightarrow> (Hex \<Rightarrow> GridTile option) \<Rightarrow> (GridTile \<Rightarrow> bool)
     \<Rightarrow> 'k PathfindingCache \<Rightarrow> bool" where
  "distanceCallCoherent start goal rng getTile canTraverse cache \<longleftrightarrow>
     (case fst (getEffectiveDistance (generatePathCacheKey (getId start) (getId goal) rng) cache)
      of None \<Rightarrow> True
       | Some v \<Rightarrow> computeDistance start goal rng getTile canTraverse = Some v)"

text \<open>
  A cache is coherent with a call of \<open>findClosestTarget\<close> when the target tiles are
  identified by their hex identifiers and the distance cache is coherent with the searches
  from the source to the targets.
\<close>

definition targetCallCoherent ::
  "GridTile \<Rightarrow> GridTile list \<Rightarrow> int \<Rightarrow> (Hex \<Rightarrow> GridTile option) \<Rightarrow> (GridTile \<Rightarrow> bool)
     \<Rightarrow> 'k PathfindingCache \<Rightarrow> bool" where
  "targetCallCoherent sourceTile targetTiles sourceRange getTile canTraverse cache \<longleftrightarrow>
     idsIdentifyHexes targetTiles
     \<and> distancesCoherent [sourceTile] targetTiles (\<lambda>tile. sourceRange) getTile canTraverse cache"

text \<open>
  A cache is coherent with a call of an aggregate function when the tiles are identified
  by their hex identifiers, the distance cache is coherent with the searches of the call,
  and the entry of the aggregate cache under the key of the call, if any, is the map the
  call computes uncached.
\<close>

definition enemyMapCallCoherent ::
  "(GridTile list \<Rightarrow> (string \<rightharpoonup> int) \<Rightarrow> 'k) \<Rightarrow> GridTile list \<Rightarrow> (string \<rightharpoonup> int)
     \<Rightarrow> (Hex \<Rightarrow> GridTile option) option \<Rightarrow> 'k PathfindingCache \<Rightarrow> bool" where
  "enemyMapCallCoherent generateGridCacheKey tilesWithCharacters characterRanges getTile cache
     \<longleftrightarrow> idsIdentifyHexes tilesWithCharacters
       \<and> distancesCoherent (filter (\<lambda>tile. team tile = Some ALLY) tilesWithCharacters)
           (filter (\<lambda>tile. team tile = Some ENEMY) tilesWithCharacters)
           (characterRange characterRanges) (getTileHelper tilesWithCharacters getTile)
           defaultCanTraverse cache
       \<and> (case fst (getClosestEnemyMapCache
                      (generateGridCacheKey tilesWithCharacters characterRanges) cache)
          of None \<Rightarrow> True
           | Some m \<Rightarrow>
               map_option fst
                 (getClosestEnemyMap generateGridCacheKey tilesWithCharacters characterRanges
                    False getTile cache) = Some m)"

definition allyMapCallCoherent ::
  "(GridTile list \<Rightarrow> (string \<rightharpoonup> int) \<Rightarrow> 'k) \<Rightarrow> GridTile list \<Rightarrow> (string \<rightharpoonup> int)
     \<Rightarrow> (Hex \<Rightarrow> GridTile option) option \<Rightarrow> 'k PathfindingCache \<Rightarrow> bool" where
  "allyMapCallCoherent generateGridCacheKey tilesWithCharacters characterRanges getTile cache
     \<longleftrightarrow> idsIdentifyHexes tilesWithCharacters
       \<and> distancesCoherent (filter (\<lambda>tile. team tile = Some ENEMY) tilesWithCharacters)
           (filter (\<lambda>tile. team tile = Some ALLY) tilesWithCharacters)
           (characterRange characterRanges) (getTileHelper tilesWithCharacters getTile)
           defaultCanTraverse cache
       \<and> (case fst (getClosestAllyMapCache
                      (generateGridCacheKey tilesWithCharacters characterRanges) cache)
          of None \<Rightarrow> True
           | Some m \<Rightarrow>
               map_option fst
                 (getClosestAllyMap generateGridCacheKey tilesWithCharacters characterRanges
                    False getTile cache) = Some m)"

text \<open>
  The cache left by a search on the open board \<open>discGrid 4\<close> from the hex with identifier 1
  to the hex with identifier 2, three steps away, with range 1.
\<close>

definition boardCache :: "unit PathfindingCache" where
  "boardCache =
     setEffectiveDistance (generatePathCacheKey 1 2 1)
       \<lparr>movementDistance = 2, canReach = True, directDistance = 3\<rparr> emptyCache"

text \<open>
  A cache holding the effective distance between the two units of \<open>duelBoard\<close> on the open
  board \<open>discGrid 3\<close>.
\<close>

definition duelCache :: "unit PathfindingCache" where
  "duelCache =
     setEffectiveDistance (generatePathCacheKey 1 2 1)
       \<lparr>movementDistance = 1, canReach = True, directDistance = 2\<rparr> emptyCache"

text \<open>
  The cache left by a search on the board without tiles from the hex with identifier 1 to
  the hex with identifier 2, three steps away, with range 1.
\<close>

definition noTilesCache :: "unit PathfindingCache" where
  "noTilesCache =
     setEffectiveDistance (generatePathCacheKey 1 2 1)
       \<lparr>movementDistance = \<infinity>, canReach = False, directDistance = 3\<rparr> emptyCache"

section \<open>Verified properties\<close>

subsection \<open>The effective distance\<close>





subsection \<open>The diagonal rows\<close>

lemma table_rows_all: "\<forall>i \<in> set [1..45]. getRowNumber i = cyclicRow i"
  by code_simp

lemma table_rows: "1 \<le> i \<Longrightarrow> i \<le> 45 \<Longrightarrow> getRowNumber i = cyclicRow i"
  using table_rows_all by simp

lemma table_rows_le: "i \<le> 45 \<Longrightarrow> getRowNumber i \<le> 15"
  by (simp add: getRowNumber_def rowEndings_def)

lemma findRow_beyond: "45 < i \<Longrightarrow> findRow i rowEndings 0 = None"
  by (simp add: rowEndings_def)

lemma fallback_step:
  assumes "e < i"
    and "sz = (if n mod 4 = 1 \<and> 4 < n then 4 else if n mod 2 = 0 then 3 else 2)"
    and "e' = e + sz"
  shows "fallbackRow i e n = (if i \<le> e' then Suc n else fallbackRow i e' (Suc n))"
  using assms by (subst fallbackRow.simps) (simp add: Let_def)

lemma fallback_period:
  assumes "rowNum mod 4 = 0" "4 < rowNum" "e < i"
  shows "fallbackRow i e rowNum =
     (if i \<le> e + 3 then rowNum + 1 else if i \<le> e + 7 then rowNum + 2
      else if i \<le> e + 10 then rowNum + 3 else if i \<le> e + 12 then rowNum + 4
      else fallbackRow i (e + 12) (rowNum + 4))"
proof -
  have m0: "(3::int) = (if rowNum mod 4 = 1 \<and> 4 < rowNum then 4
                        else if rowNum mod 2 = 0 then 3 else 2)"
    and m1: "(4::int) = (if Suc rowNum mod 4 = 1 \<and> 4 < Suc rowNum then 4
                        else if Suc rowNum mod 2 = 0 then 3 else 2)"
    and m2: "(3::int) = (if Suc (Suc rowNum) mod 4 = 1 \<and> 4 < Suc (Suc rowNum) then 4
                        else if Suc (Suc rowNum) mod 2 = 0 then 3 else 2)"
    and m3: "(2::int) = (if Suc (Suc (Suc rowNum)) mod 4 = 1 \<and> 4 < Suc (Suc (Suc rowNum)) then 4
                        else if Suc (Suc (Suc rowNum)) mod 2 = 0 then 3 else 2)"
    using assms(1,2) by presburger+
  have s1: "fallbackRow i e rowNum =
      (if i \<le> e + 3 then Suc rowNum else fallbackRow i (e + 3) (Suc rowNum))"
    by (rule fallback_step [OF assms(3) m0]) simp
  have s2: "fallbackRow i (e + 3) (Suc rowNum) =
      (if i \<le> e + 7 then Suc (Suc rowNum) else fallbackRow i (e + 7) (Suc (Suc rowNum)))"
    if "e + 3 < i"
    by (rule fallback_step [OF that m1]) simp
  have s3: "fallbackRow i (e + 7) (Suc (Suc rowNum)) =
      (if i \<le> e + 10 then Suc (Suc (Suc rowNum))
       else fallbackRow i (e + 10) (Suc (Suc (Suc rowNum))))"
    if "e + 7 < i"
    by (rule fallback_step [OF that m2]) simp
  have s4: "fallbackRow i (e + 10) (Suc (Suc (Suc rowNum))) =
      (if i \<le> e + 12 then Suc (Suc (Suc (Suc rowNum)))
       else fallbackRow i (e + 12) (Suc (Suc (Suc (Suc rowNum)))))"
    if "e + 10 < i"
    by (rule fallback_step [OF that m3]) simp
  have n4: "rowNum + 4 = Suc (Suc (Suc (Suc rowNum)))" by simp
  consider "i \<le> e + 3" | "e + 3 < i" "i \<le> e + 7" | "e + 7 < i" "i \<le> e + 10"
    | "e + 10 < i" "i \<le> e + 12" | "e + 12 < i"
    by linarith
  then show ?thesis
  proof cases
    case 1
    then show ?thesis by ((simp only: s1 if_True)?, simp?)
  next
    case 2
    then have "e + 3 < i" "\<not> i \<le> e + 3" by simp_all
    then show ?thesis using 2 by ((simp only: s1 s2 if_True if_False)?, simp?)
  next
    case 3
    then have "e + 3 < i" "\<not> i \<le> e + 3" "\<not> i \<le> e + 7" by simp_all
    then show ?thesis using 3 by ((simp only: s1 s2 s3 if_True if_False)?, simp?)
  next
    case 4
    then have "e + 3 < i" "e + 7 < i" "\<not> i \<le> e + 3" "\<not> i \<le> e + 7" "\<not> i \<le> e + 10"
      by simp_all
    then show ?thesis using 4 by ((simp only: s1 s2 s3 s4 if_True if_False n4)?, simp?)
  next
    case 5
    then have "e + 3 < i" "e + 7 < i" "e + 10 < i" "\<not> i \<le> e + 3" "\<not> i \<le> e + 7"
      "\<not> i \<le> e + 10" "\<not> i \<le> e + 12"
      by simp_all
    then show ?thesis by (simp only: s1 s2 s3 s4 if_True if_False n4)
  qed
qed

lemma cycleRow_fallback_shift:
  "cycleRow fallbackCycle (p + 12) = 4 + cycleRow fallbackCycle p"
  by (simp add: cycleRow_def fallbackCycle_def)

lemma cycleRow_fallback_small:
  "p < 12 \<Longrightarrow> cycleRow fallbackCycle p =
     (if p < 3 then 0 else if p < 7 then 1 else if p < 10 then 2 else 3)"
  by (simp add: cycleRow_def fallbackCycle_def) arith

lemma fallbackRow_closed:
  "rowNum mod 4 = 0 \<Longrightarrow> 4 < rowNum \<Longrightarrow> e < i \<Longrightarrow>
     fallbackRow i e rowNum = rowNum + 1 + cycleRow fallbackCycle (nat (i - e - 1))"
proof (induction "nat (i - e)" arbitrary: e rowNum rule: less_induct)
  case less
  show ?case
  proof (cases "i \<le> e + 12")
    case True
    then have "nat (i - e - 1) < 12" using less.prems by simp
    then show ?thesis
      using fallback_period [OF less.prems] True less.prems(3)
      by (auto simp: cycleRow_fallback_small)
  next
    case False
    have lt: "nat (i - (e + 12)) < nat (i - e)" using False by simp
    have m: "(rowNum + 4) mod 4 = 0" "4 < rowNum + 4" "e + 12 < i"
      using less.prems False by simp_all
    have ih: "fallbackRow i (e + 12) (rowNum + 4)
        = rowNum + 4 + 1 + cycleRow fallbackCycle (nat (i - (e + 12) - 1))"
      using less.hyps [OF lt m] .
    have sh: "nat (i - e - 1) = nat (i - (e + 12) - 1) + 12" using False by simp
    show ?thesis
      using fallback_period [OF less.prems] False ih
      by (simp add: sh cycleRow_fallback_shift)
  qed
qed

lemma fallback_rows: "45 < i \<Longrightarrow> getRowNumber i = fallbackCycleRow i"
  using fallbackRow_closed [of 16 45 i]
  by (simp add: getRowNumber_def findRow_beyond fallbackCycleRow_def)

text \<open>
  Claim C7, as amended. For identifiers from 1 to 45 two identifiers are in the same
  diagonal row exactly when they are in the same block of the partition into rows of sizes
  2,3,2,3,4,3,4,3,4,3,4,3,2,3,2. Beyond 45 the rows are those of the fallback loop,
  consecutive blocks of sizes 3,4,3,2 again and again from identifier 46 on, and no
  identifier beyond 45 shares a row with one up to 45.
\<close>

theorem diagonal_rows_table_and_fallback:
  "(1 \<le> a \<and> a \<le> 45 \<and> 1 \<le> b \<and> b \<le> 45 \<longrightarrow>
      (areHexesInSameDiagonalRow a b \<longleftrightarrow> cyclicRow a = cyclicRow b))
   \<and> (45 < a \<and> 45 < b \<longrightarrow>
      (areHexesInSameDiagonalRow a b \<longleftrightarrow> fallbackCycleRow a = fallbackCycleRow b))
   \<and> (a \<le> 45 \<and> 45 < b \<longrightarrow> \<not> areHexesInSameDiagonalRow a b)"
proof -
  have "a \<le> 45 \<Longrightarrow> 45 < b \<Longrightarrow> getRowNumber a \<noteq> getRowNumber b"
    using table_rows_le [of a] fallback_rows [of b] by (simp add: fallbackCycleRow_def)
  then show ?thesis
    by (auto simp: areHexesInSameDiagonalRow_def table_rows fallback_rows)
qed

theorem diagonal_rows_table_and_fallback_witness:
  "areHexesInSameDiagonalRow 11 14 \<and> \<not> areHexesInSameDiagonalRow 10 11
   \<and> areHexesInSameDiagonalRow 46 48 \<and> \<not> areHexesInSameDiagonalRow 48 49
   \<and> \<not> areHexesInSameDiagonalRow 45 46"
proof -
  have c: "cyclicRow 11 = cyclicRow 14" "cyclicRow 10 \<noteq> cyclicRow 11"
    "fallbackCycleRow 46 = fallbackCycleRow 48" "fallbackCycleRow 48 \<noteq> fallbackCycleRow 49"
    by code_simp+
  show ?thesis
    using diagonal_rows_table_and_fallback [of 11 14] diagonal_rows_table_and_fallback [of 10 11]
      diagonal_rows_table_and_fallback [of 46 48] diagonal_rows_table_and_fallback [of 48 49]
      diagonal_rows_table_and_fallback [of 45 46] c
    by simp
qed

text \<open>
  Claim C7 as stated fails beyond the table: continuing the cycle of row sizes puts 46
  and 47 in one row and 48 in the next, while the source puts 47 and 48 in one row.
\<close>

theorem diagonal_rows_cycle_counterexample:
  "areHexesInSameDiagonalRow 47 48 \<and> cyclicRow 47 \<noteq> cyclicRow 48"
  by code_simp


subsection \<open>The identifiers in the results\<close>













subsection \<open>Tie-breaking by vertical alignment\<close>

lemma row_refl: "areHexesInSameDiagonalRow i i"
  by (simp add: areHexesInSameDiagonalRow_def)

lemma rangedTieBreak_keeps_vertical:
  assumes "isVerticallyAligned (hex src) (hex b)"
    and "isVerticallyAligned (hex src) (hex x) \<longrightarrow> x = b"
  shows "rangedTieBreak src x b = b"
  using assms by (auto simp: rangedTieBreak_def Let_def row_refl)

lemma fold_rangedTieBreak_keeps_vertical:
  assumes "isVerticallyAligned (hex src) (hex b)"
    and "\<forall>x \<in> set xs. isVerticallyAligned (hex src) (hex x) \<longrightarrow> x = b"
  shows "fold (rangedTieBreak src) xs b = b"
  using assms by (induction xs) (simp_all add: rangedTieBreak_keeps_vertical)

lemma fold_rangedTieBreak_finds_vertical:
  assumes "v \<in> set (b # xs)"
    and "isVerticallyAligned (hex src) (hex v)"
    and "\<forall>x \<in> set (b # xs). isVerticallyAligned (hex src) (hex x) \<longrightarrow> x = v"
  shows "fold (rangedTieBreak src) xs b = v"
  using assms
proof (induction xs arbitrary: b)
  case Nil
  then show ?case by simp
next
  case (Cons x xs)
  have all_xs: "\<forall>y \<in> set xs. isVerticallyAligned (hex src) (hex y) \<longrightarrow> y = v"
    using Cons.prems(3) by (meson list.set_intros)
  have x_v: "isVerticallyAligned (hex src) (hex x) \<longrightarrow> x = v"
    using Cons.prems(3) by (meson list.set_intros)
  have b_v: "isVerticallyAligned (hex src) (hex b) \<longrightarrow> b = v"
    using Cons.prems(3) by (meson list.set_intros)
  have step: "fold (rangedTieBreak src) (x # xs) b
      = fold (rangedTieBreak src) xs (rangedTieBreak src x b)"
    by simp
  show ?case
  proof (cases "b = v")
    case True
    have "rangedTieBreak src x v = v"
      by (rule rangedTieBreak_keeps_vertical [OF Cons.prems(2) x_v])
    moreover have "fold (rangedTieBreak src) xs v = v"
      by (rule fold_rangedTieBreak_keeps_vertical [OF Cons.prems(2) all_xs])
    ultimately show ?thesis by (simp add: True)
  next
    case bv: False
    then have nb: "\<not> isVerticallyAligned (hex src) (hex b)" using b_v by blast
    show ?thesis
    proof (cases "x = v")
      case True
      have "rangedTieBreak src v b = v"
        using nb Cons.prems(2) by (simp add: rangedTieBreak_def Let_def)
      moreover have "fold (rangedTieBreak src) xs v = v"
        by (rule fold_rangedTieBreak_keeps_vertical [OF Cons.prems(2) all_xs])
      ultimately show ?thesis by (simp add: True)
    next
      case False
      then have vin: "v \<in> set xs" using Cons.prems(1) bv by (metis set_ConsD)
      have cs: "rangedTieBreak src x b = x \<or> rangedTieBreak src x b = b"
        by (simp add: rangedTieBreak_def Let_def)
      have nx: "\<not> isVerticallyAligned (hex src) (hex x)" using x_v False by blast
      have nt: "\<not> isVerticallyAligned (hex src) (hex (rangedTieBreak src x b))"
        using cs nx nb by metis
      have m: "v \<in> set (rangedTieBreak src x b # xs)"
        using vin by (rule list.set_intros(2))
      have a: "\<forall>y \<in> set (rangedTieBreak src x b # xs).
          isVerticallyAligned (hex src) (hex y) \<longrightarrow> y = v"
        using all_xs nt by (metis set_ConsD)
      show ?thesis
        unfolding step by (rule Cons.IH [OF m Cons.prems(2) a])
    qed
  qed
qed

lemma bfsLoop_unreachable_empty:
  "\<not> rangedCanReach (fst (bfsLoop targets rng gt ct n queue vis))
     \<Longrightarrow> reachableTargets (fst (bfsLoop targets rng gt ct n queue vis)) = []"
proof (induction targets rng gt ct n queue vis rule: bfsLoop.induct)
  case (1 targets rng gt ct n queue vis)
  let ?st = "bfsLayer targets rng gt ct queue
               \<lparr>visited = vis, nextQueue = [], reachableAtThisDistance = []\<rparr>"
  show ?case
  proof (cases "queue \<noteq> [] \<and> n < 20")
    case False
    then show ?thesis by (subst bfsLoop.simps) auto
  next
    case go: True
    show ?thesis
    proof (cases "reachableAtThisDistance ?st \<noteq> []")
      case True
      then have "rangedCanReach (fst (bfsLoop targets rng gt ct n queue vis))"
        using go by (subst bfsLoop.simps) (simp add: Let_def)
      with "1.prems" show ?thesis by simp
    next
      case False
      have eq: "bfsLoop targets rng gt ct n queue vis
          = bfsLoop targets rng gt ct (n + 1) (nextQueue ?st) (visited ?st)"
        using go False by (subst bfsLoop.simps) (simp add: Let_def)
      show ?thesis
        using "1.IH" [OF go refl False] "1.prems" unfolding eq by blast
    qed
  qed
qed

lemma ranged_unreachable_empty:
  "\<not> rangedCanReach (calculateRangedMovementDistance start targets rng gt ct)
     \<Longrightarrow> reachableTargets (calculateRangedMovementDistance start targets rng gt ct) = []"
proof (cases "targets = []")
  case True
  then show ?thesis by (simp add: calculateRangedMovementDistance_def)
next
  case ne: False
  assume nr: "\<not> rangedCanReach (calculateRangedMovementDistance start targets rng gt ct)"
  show ?thesis
  proof (cases "filter (\<lambda>target. int (distance start target) \<le> rng) targets = []")
    case False
    then have "rangedCanReach (calculateRangedMovementDistance start targets rng gt ct)"
      using ne by (simp add: calculateRangedMovementDistance_def Let_def)
    with nr show ?thesis by simp
  next
    case True
    then have eq: "calculateRangedMovementDistance start targets rng gt ct
        = fst (bfsLoop targets rng gt ct 0 [start] {toString start})"
      using ne by (simp add: calculateRangedMovementDistance_def Let_def)
    show ?thesis
      using nr bfsLoop_unreachable_empty [of targets rng gt ct 0 "[start]" "{toString start}"]
      unfolding eq by blast
  qed
qed

lemma findClosestTarget_ranged_vertical:
  assumes "1 < rng"
    and "v \<in> set (rangedCandidates src tts rng gt ct)"
    and "isVerticallyAligned (hex src) (hex v)"
    and "\<forall>t \<in> set (rangedCandidates src tts rng gt ct).
           isVerticallyAligned (hex src) (hex t) \<longrightarrow> t = v"
  shows "findClosestTarget src tts rng gt ct ce cache =
     Some (Some \<lparr>hexId = getId (hex v),
                  targetDistance = rangedMovementDistance
                    (calculateRangedMovementDistance (hex src) (map hex tts) rng gt ct)\<rparr>, cache)"
proof -
  let ?rr = "calculateRangedMovementDistance (hex src) (map hex tts) rng gt ct"
  obtain first others where c: "rangedCandidates src tts rng gt ct = first # others"
    using assms(2) by (cases "rangedCandidates src tts rng gt ct") auto
  have ne: "tts \<noteq> []" using assms(2) by (auto simp: rangedCandidates_def)
  have "reachableTargets ?rr \<noteq> []" using assms(2) by (auto simp: rangedCandidates_def)
  then have reach: "rangedCanReach ?rr \<and> reachableTargets ?rr \<noteq> []"
    using ranged_unreachable_empty [of "hex src" "map hex tts" rng gt ct] by blast
  have best: "fold (rangedTieBreak src) others first = v"
    by (rule fold_rangedTieBreak_finds_vertical
          [OF assms(2) [unfolded c] assms(3) assms(4) [unfolded c]])
  show ?thesis
    using assms(1) ne reach c [unfolded rangedCandidates_def]
    by (simp add: findClosestTarget_def Let_def best)
qed

lemma meleeStep_first:
  "meleeStep src tts t d None = Some (Some \<lparr>hexId = getId (hex t), targetDistance = d\<rparr>)"
  by (simp add: meleeStep_def)

lemma meleeStep_closer:
  "d < targetDistance best \<Longrightarrow>
     meleeStep src tts t d (Some best) = Some (Some \<lparr>hexId = getId (hex t), targetDistance = d\<rparr>)"
  by (simp add: meleeStep_def Let_def)

lemma meleeStep_farther:
  "targetDistance best < d \<Longrightarrow> meleeStep src tts t d (Some best) = Some (Some best)"
  by (auto simp: meleeStep_def Let_def)

lemma meleeStep_tie_cases:
  assumes "d = targetDistance best"
    and "find (\<lambda>u. getId (hex u) = hexId best) tts = Some c"
  shows "meleeStep src tts t d (Some best) = Some (Some best)
       \<or> meleeStep src tts t d (Some best)
            = Some (Some \<lparr>hexId = getId (hex t), targetDistance = d\<rparr>)"
  using assms by (simp add: meleeStep_def Let_def)

lemma meleeStep_tie_vertical_wins:
  assumes "d = targetDistance best"
    and "find (\<lambda>u. getId (hex u) = hexId best) tts = Some c"
    and "isVerticallyAligned (hex src) (hex t)"
    and "\<not> isVerticallyAligned (hex src) (hex c)"
  shows "meleeStep src tts t d (Some best)
           = Some (Some \<lparr>hexId = getId (hex t), targetDistance = d\<rparr>)"
  using assms by (simp add: meleeStep_def Let_def)

lemma meleeStep_tie_vertical_keeps:
  assumes "d = targetDistance best"
    and "find (\<lambda>u. getId (hex u) = hexId best) tts = Some c"
    and "\<not> isVerticallyAligned (hex src) (hex t)"
    and "isVerticallyAligned (hex src) (hex c)"
  shows "meleeStep src tts t d (Some best) = Some (Some best)"
  using assms by (simp add: meleeStep_def Let_def)

lemma meleeStep_tie_same_hex:
  assumes "d = targetDistance best"
    and "find (\<lambda>u. getId (hex u) = hexId best) tts = Some c"
    and "hex c = hex t"
    and "hexId best = getId (hex t)"
  shows "meleeStep src tts t d (Some best) = Some (Some best)"
  using assms by (simp add: meleeStep_def Let_def row_refl)

lemma find_by_id:
  assumes "b \<in> set tts"
    and "\<forall>x \<in> set tts. \<forall>y \<in> set tts. getId (hex x) = getId (hex y) \<longrightarrow> hex x = hex y"
  shows "\<exists>c. find (\<lambda>u. getId (hex u) = getId (hex b)) tts = Some c \<and> hex c = hex b"
proof (cases "find (\<lambda>u. getId (hex u) = getId (hex b)) tts")
  case None
  then have "\<not> (\<exists>x. x \<in> set tts \<and> getId (hex x) = getId (hex b))"
    by (simp add: find_None_iff)
  then show ?thesis using assms(1) by blast
next
  case (Some c)
  then have "c \<in> set tts" "getId (hex c) = getId (hex b)"
    by (auto simp: find_Some_iff)
  then show ?thesis using Some assms by blast
qed

lemma meleeLoop_skip:
  assumes "calculateEffectiveDistance (hex src) (hex t) rng gt (canTraverseToTarget ct t) ce cache
             = Some (d, c1)"
    and "\<not> canReach d"
  shows "meleeLoop src tts rng gt ct ce (t # rest) closest cache
           = meleeLoop src tts rng gt ct ce rest closest c1"
  using assms by simp

lemma meleeLoop_take:
  assumes "calculateEffectiveDistance (hex src) (hex t) rng gt (canTraverseToTarget ct t) ce cache
             = Some (d, c1)"
    and "canReach d"
    and "meleeStep src tts t (movementDistance d) closest = Some closest'"
  shows "meleeLoop src tts rng gt ct ce (t # rest) closest cache
           = meleeLoop src tts rng gt ct ce rest closest' c1"
  using assms by simp

lemma meleeDistances_Cons:
  assumes "meleeDistances src rng gt ct ce (t # rest) cache = Some obs"
  obtains d c1 obs' where
    "calculateEffectiveDistance (hex src) (hex t) rng gt (canTraverseToTarget ct t) ce cache
       = Some (d, c1)"
    and "meleeDistances src rng gt ct ce rest c1 = Some obs'"
    and "obs = (t, d) # obs'"
  using assms by (auto split: option.splits)

lemma melee_after_vertical:
  assumes U: "\<forall>x \<in> set tts. \<forall>y \<in> set tts. getId (hex x) = getId (hex y) \<longrightarrow> hex x = hex y"
    and vin: "v \<in> set tts"
    and vv: "isVerticallyAligned (hex src) (hex v)"
    and obs: "meleeDistances src rng gt ct ce rest cache = Some obs"
    and minimal: "\<forall>t d. (t, d) \<in> set obs \<and> canReach d \<longrightarrow> dv \<le> movementDistance d"
    and others: "\<forall>t d. (t, d) \<in> set obs \<and> canReach d \<and> movementDistance d = dv
                   \<and> hex t \<noteq> hex v \<longrightarrow> \<not> isVerticallyAligned (hex src) (hex t)"
  shows "\<exists>cache'. meleeLoop src tts rng gt ct ce rest
            (Some \<lparr>hexId = getId (hex v), targetDistance = dv\<rparr>) cache
          = Some (Some \<lparr>hexId = getId (hex v), targetDistance = dv\<rparr>, cache')"
  using obs minimal others
proof (induction rest arbitrary: cache obs)
  case Nil
  show ?case by simp
next
  case (Cons t rest)
  let ?best = "\<lparr>hexId = getId (hex v), targetDistance = dv\<rparr>"
  from Cons.prems(1) obtain d c1 obs' where
    eff: "calculateEffectiveDistance (hex src) (hex t) rng gt (canTraverseToTarget ct t) ce cache
            = Some (d, c1)"
    and tl: "meleeDistances src rng gt ct ce rest c1 = Some obs'"
    and ob: "obs = (t, d) # obs'"
    by (rule meleeDistances_Cons)
  have min': "\<forall>t d. (t, d) \<in> set obs' \<and> canReach d \<longrightarrow> dv \<le> movementDistance d"
    using Cons.prems(2) ob by auto
  have oth': "\<forall>t d. (t, d) \<in> set obs' \<and> canReach d \<and> movementDistance d = dv
                   \<and> hex t \<noteq> hex v \<longrightarrow> \<not> isVerticallyAligned (hex src) (hex t)"
    using Cons.prems(3) ob by auto
  note ih = Cons.IH [OF tl min' oth']
  show ?case
  proof (cases "canReach d")
    case False
    show ?thesis using ih unfolding meleeLoop_skip [OF eff False] .
  next
    case True
    have le: "dv \<le> movementDistance d" using Cons.prems(2) ob True by auto
    have keep: "meleeStep src tts t (movementDistance d) (Some ?best) = Some (Some ?best)"
    proof (cases "dv < movementDistance d")
      case True
      then show ?thesis by (simp add: meleeStep_farther)
    next
      case False
      then have tie: "movementDistance d = targetDistance ?best" using le by simp
      from find_by_id [OF vin U] obtain c where
        c: "find (\<lambda>u. getId (hex u) = hexId ?best) tts = Some c" and hc: "hex c = hex v"
        by auto
      show ?thesis
      proof (cases "hex t = hex v")
        case True
        show ?thesis
          by (rule meleeStep_tie_same_hex [OF tie c]) (simp_all add: hc True getId_def)
      next
        case False
        have "\<not> isVerticallyAligned (hex src) (hex t)"
          using Cons.prems(3) ob \<open>canReach d\<close> tie False by auto
        moreover have "isVerticallyAligned (hex src) (hex c)" using vv hc by simp
        ultimately show ?thesis by (rule meleeStep_tie_vertical_keeps [OF tie c])
      qed
    qed
    show ?thesis using ih unfolding meleeLoop_take [OF eff True keep] .
  qed
qed

lemma beforeVertical_candidate:
  assumes "t \<in> set tts" "dv \<le> d"
    and "d = dv \<longrightarrow> \<not> isVerticallyAligned (hex src) (hex t) \<or> hex t = hex v"
  shows "beforeVertical src tts v dv (Some \<lparr>hexId = getId (hex t), targetDistance = d\<rparr>)"
  unfolding beforeVertical_def using assms by blast

lemma meleeStep_vertical_arrives:
  assumes U: "\<forall>x \<in> set tts. \<forall>y \<in> set tts. getId (hex x) = getId (hex y) \<longrightarrow> hex x = hex y"
    and vv: "isVerticallyAligned (hex src) (hex v)"
    and J: "beforeVertical src tts v dv closest"
  shows "meleeStep src tts v dv closest
           = Some (Some \<lparr>hexId = getId (hex v), targetDistance = dv\<rparr>)"
proof (cases closest)
  case None
  then show ?thesis by (simp add: meleeStep_first)
next
  case (Some best)
  with J obtain b d0 where
    best: "best = \<lparr>hexId = getId (hex b), targetDistance = d0\<rparr>" and bin: "b \<in> set tts"
    and le: "dv \<le> d0"
    and tieb: "d0 = dv \<longrightarrow> \<not> isVerticallyAligned (hex src) (hex b) \<or> hex b = hex v"
    unfolding beforeVertical_def by auto
  show ?thesis
  proof (cases "dv < d0")
    case True
    then show ?thesis unfolding Some by (simp add: meleeStep_closer best)
  next
    case False
    then have tie: "dv = targetDistance best" using le best by simp
    from find_by_id [OF bin U] obtain c where
      c: "find (\<lambda>u. getId (hex u) = hexId best) tts = Some c" and hc: "hex c = hex b"
      using best by auto
    show ?thesis
    proof (cases "hex b = hex v")
      case True
      have "meleeStep src tts v dv (Some best) = Some (Some best)"
        by (rule meleeStep_tie_same_hex [OF tie c]) (simp_all add: hc True best getId_def)
      moreover have "best = \<lparr>hexId = getId (hex v), targetDistance = dv\<rparr>"
        using best tie True by (simp add: getId_def)
      ultimately show ?thesis unfolding Some by simp
    next
      case False
      then have "\<not> isVerticallyAligned (hex src) (hex c)" using tieb tie best hc by simp
      with vv show ?thesis
        unfolding Some by (rule meleeStep_tie_vertical_wins [OF tie c])
    qed
  qed
qed

lemma meleeStep_before_vertical:
  assumes U: "\<forall>x \<in> set tts. \<forall>y \<in> set tts. getId (hex x) = getId (hex y) \<longrightarrow> hex x = hex y"
    and tin: "t \<in> set tts"
    and le: "dv \<le> d"
    and tt: "d = dv \<longrightarrow> \<not> isVerticallyAligned (hex src) (hex t) \<or> hex t = hex v"
    and J: "beforeVertical src tts v dv closest"
  shows "\<exists>closest'. meleeStep src tts t d closest = Some closest'
           \<and> beforeVertical src tts v dv closest'"
proof (cases closest)
  case None
  then show ?thesis
    using beforeVertical_candidate [OF tin le tt] by (simp add: meleeStep_first)
next
  case (Some best)
  with J obtain b d0 where
    best: "best = \<lparr>hexId = getId (hex b), targetDistance = d0\<rparr>" and bin: "b \<in> set tts"
    unfolding beforeVertical_def by auto
  have Jb: "beforeVertical src tts v dv (Some best)" using J Some by simp
  have Jc: "beforeVertical src tts v dv (Some \<lparr>hexId = getId (hex t), targetDistance = d\<rparr>)"
    by (rule beforeVertical_candidate [OF tin le tt])
  consider "d < d0" | "d0 < d" | "d = d0" by (metis linorder_less_linear)
  then show ?thesis
  proof cases
    case 1
    then show ?thesis unfolding Some using Jc by (simp add: meleeStep_closer best)
  next
    case 2
    then show ?thesis unfolding Some using Jb by (simp add: meleeStep_farther best)
  next
    case 3
    then have tie: "d = targetDistance best" using best by simp
    from find_by_id [OF bin U] obtain c where
      c: "find (\<lambda>u. getId (hex u) = hexId best) tts = Some c"
      using best by auto
    from meleeStep_tie_cases [OF tie c, of src t] show ?thesis
      unfolding Some using Jb Jc by metis
  qed
qed

lemma melee_before_vertical:
  assumes U: "\<forall>x \<in> set tts. \<forall>y \<in> set tts. getId (hex x) = getId (hex y) \<longrightarrow> hex x = hex y"
    and vv: "isVerticallyAligned (hex src) (hex v)"
    and sub: "set rest \<subseteq> set tts"
    and obs: "meleeDistances src rng gt ct ce rest cache = Some obs"
    and vobs: "(v, dvr) \<in> set obs" "canReach dvr" "movementDistance dvr = dv"
    and minimal: "\<forall>t d. (t, d) \<in> set obs \<and> canReach d \<longrightarrow> dv \<le> movementDistance d"
    and others: "\<forall>t d. (t, d) \<in> set obs \<and> canReach d \<and> movementDistance d = dv
                   \<and> hex t \<noteq> hex v \<longrightarrow> \<not> isVerticallyAligned (hex src) (hex t)"
    and J: "beforeVertical src tts v dv closest"
  shows "\<exists>cache'. meleeLoop src tts rng gt ct ce rest closest cache
          = Some (Some \<lparr>hexId = getId (hex v), targetDistance = dv\<rparr>, cache')"
  using sub obs vobs(1) minimal others J
proof (induction rest arbitrary: cache obs closest)
  case Nil
  then show ?case by simp
next
  case (Cons t rest)
  from Cons.prems(2) obtain d c1 obs' where
    eff: "calculateEffectiveDistance (hex src) (hex t) rng gt (canTraverseToTarget ct t) ce cache
            = Some (d, c1)"
    and tl: "meleeDistances src rng gt ct ce rest c1 = Some obs'"
    and ob: "obs = (t, d) # obs'"
    by (rule meleeDistances_Cons)
  have tin: "t \<in> set tts" and sub': "set rest \<subseteq> set tts" using Cons.prems(1) by auto
  have min': "\<forall>t d. (t, d) \<in> set obs' \<and> canReach d \<longrightarrow> dv \<le> movementDistance d"
    using Cons.prems(4) ob by auto
  have oth': "\<forall>t d. (t, d) \<in> set obs' \<and> canReach d \<and> movementDistance d = dv
                   \<and> hex t \<noteq> hex v \<longrightarrow> \<not> isVerticallyAligned (hex src) (hex t)"
    using Cons.prems(5) ob by auto
  show ?case
  proof (cases "t = v \<and> d = dvr")
    case True
    then have reach: "canReach d" and md: "movementDistance d = dv" using vobs(2,3) by simp_all
    have st: "meleeStep src tts t (movementDistance d) closest
        = Some (Some \<lparr>hexId = getId (hex v), targetDistance = dv\<rparr>)"
      using meleeStep_vertical_arrives [OF U vv Cons.prems(6)] True md by simp
    have vin: "v \<in> set tts" using tin True by simp
    show ?thesis
      using melee_after_vertical [OF U vin vv tl min' oth']
      unfolding meleeLoop_take [OF eff reach st] .
  next
    case False
    then have vobs': "(v, dvr) \<in> set obs'" using Cons.prems(3) ob by auto
    show ?thesis
    proof (cases "canReach d")
      case False
      show ?thesis
        using Cons.IH [OF sub' tl vobs' min' oth' Cons.prems(6)]
        unfolding meleeLoop_skip [OF eff False] .
    next
      case True
      have le: "dv \<le> movementDistance d" using Cons.prems(4) ob True by auto
      have tt: "movementDistance d = dv \<longrightarrow>
          \<not> isVerticallyAligned (hex src) (hex t) \<or> hex t = hex v"
        using Cons.prems(5) ob True by auto
      from meleeStep_before_vertical [OF U tin le tt Cons.prems(6)] obtain closest' where
        st: "meleeStep src tts t (movementDistance d) closest = Some closest'"
        and J': "beforeVertical src tts v dv closest'"
        by blast
      show ?thesis
        using Cons.IH [OF sub' tl vobs' min' oth' J']
        unfolding meleeLoop_take [OF eff True st] .
    qed
  qed
qed

lemma findClosestTarget_melee_vertical:
  assumes "rng \<le> 1"
    and U: "\<forall>x \<in> set tts. \<forall>y \<in> set tts. getId (hex x) = getId (hex y) \<longrightarrow> hex x = hex y"
    and vv: "isVerticallyAligned (hex src) (hex v)"
    and obs: "meleeDistances src rng gt ct ce tts cache = Some obs"
    and vobs: "(v, dvr) \<in> set obs" "canReach dvr"
    and minimal: "\<forall>t d. (t, d) \<in> set obs \<and> canReach d
                    \<longrightarrow> movementDistance dvr \<le> movementDistance d"
    and others: "\<forall>t d. (t, d) \<in> set obs \<and> canReach d
                    \<and> movementDistance d = movementDistance dvr \<and> hex t \<noteq> hex v
                    \<longrightarrow> \<not> isVerticallyAligned (hex src) (hex t)"
  shows "\<exists>cache'. findClosestTarget src tts rng gt ct ce cache
          = Some (Some \<lparr>hexId = getId (hex v), targetDistance = movementDistance dvr\<rparr>, cache')"
proof -
  have ne: "tts \<noteq> []" using obs vobs(1) by auto
  have J: "beforeVertical src tts v (movementDistance dvr) None"
    by (simp add: beforeVertical_def)
  have "\<exists>cache'. meleeLoop src tts rng gt ct ce tts None cache
          = Some (Some \<lparr>hexId = getId (hex v), targetDistance = movementDistance dvr\<rparr>, cache')"
    by (rule melee_before_vertical [OF U vv subset_refl obs vobs refl minimal others J])
  then show ?thesis using assms(1) ne by (simp add: findClosestTarget_def)
qed

text \<open>
  Claim C5. Among the tied candidates of \<open>findClosestTarget\<close>, when exactly one is
  vertically aligned with the source (same \<open>q\<close>) it is the one selected, whatever the
  identifiers are. For a ranged unit (range above 1) the tied candidates are the tiles of
  the reachable targets; for a melee unit they are the reachable targets at the least
  movement distance, as the calls of \<open>calculateEffectiveDistance\<close> report it. In the melee
  loop the running best is looked up among the target tiles by its identifier, so the
  identifiers of the target tiles have to identify their hexes.
\<close>

theorem vertically_aligned_candidate_selected:
  "(1 < rng \<and> v \<in> set (rangedCandidates src tts rng gt ct)
      \<and> isVerticallyAligned (hex src) (hex v)
      \<and> (\<forall>t \<in> set (rangedCandidates src tts rng gt ct).
            isVerticallyAligned (hex src) (hex t) \<longrightarrow> t = v)
    \<longrightarrow> findClosestTarget src tts rng gt ct ce cache
          = Some (Some \<lparr>hexId = getId (hex v),
                       targetDistance = rangedMovementDistance
                         (calculateRangedMovementDistance (hex src) (map hex tts) rng gt ct)\<rparr>,
                  cache))
   \<and> (rng \<le> 1
      \<and> (\<forall>x \<in> set tts. \<forall>y \<in> set tts. getId (hex x) = getId (hex y) \<longrightarrow> hex x = hex y)
      \<and> isVerticallyAligned (hex src) (hex v)
      \<and> meleeDistances src rng gt ct ce tts cache = Some obs
      \<and> (v, dvr) \<in> set obs \<and> canReach dvr
      \<and> (\<forall>t d. (t, d) \<in> set obs \<and> canReach d \<longrightarrow> movementDistance dvr \<le> movementDistance d)
      \<and> (\<forall>t d. (t, d) \<in> set obs \<and> canReach d \<and> movementDistance d = movementDistance dvr
                 \<and> hex t \<noteq> hex v \<longrightarrow> \<not> isVerticallyAligned (hex src) (hex t))
    \<longrightarrow> (\<exists>cache'. findClosestTarget src tts rng gt ct ce cache
          = Some (Some \<lparr>hexId = getId (hex v), targetDistance = movementDistance dvr\<rparr>,
                  cache')))"
proof (intro conjI impI)
  assume "1 < rng \<and> v \<in> set (rangedCandidates src tts rng gt ct)
      \<and> isVerticallyAligned (hex src) (hex v)
      \<and> (\<forall>t \<in> set (rangedCandidates src tts rng gt ct).
            isVerticallyAligned (hex src) (hex t) \<longrightarrow> t = v)"
  then show "findClosestTarget src tts rng gt ct ce cache
          = Some (Some \<lparr>hexId = getId (hex v),
                       targetDistance = rangedMovementDistance
                         (calculateRangedMovementDistance (hex src) (map hex tts) rng gt ct)\<rparr>,
                  cache)"
    using findClosestTarget_ranged_vertical [of rng v src tts gt ct ce cache] by blast
next
  assume a: "rng \<le> 1
      \<and> (\<forall>x \<in> set tts. \<forall>y \<in> set tts. getId (hex x) = getId (hex y) \<longrightarrow> hex x = hex y)
      \<and> isVerticallyAligned (hex src) (hex v)
      \<and> meleeDistances src rng gt ct ce tts cache = Some obs
      \<and> (v, dvr) \<in> set obs \<and> canReach dvr
      \<and> (\<forall>t d. (t, d) \<in> set obs \<and> canReach d \<longrightarrow> movementDistance dvr \<le> movementDistance d)
      \<and> (\<forall>t d. (t, d) \<in> set obs \<and> canReach d \<and> movementDistance d = movementDistance dvr
                 \<and> hex t \<noteq> hex v \<longrightarrow> \<not> isVerticallyAligned (hex src) (hex t))"
  show "\<exists>cache'. findClosestTarget src tts rng gt ct ce cache
          = Some (Some \<lparr>hexId = getId (hex v), targetDistance = movementDistance dvr\<rparr>, cache')"
    by (rule findClosestTarget_melee_vertical [of rng tts src v gt ct ce cache obs dvr])
       (use a in blast)+
qed

theorem vertically_aligned_candidate_selected_witness:
  "rangedCandidates forkSource [forkAside, forkAligned] 2 (discGrid 4) defaultCanTraverse
     = [forkAside, forkAligned]
   \<and> isVerticallyAligned (hex forkSource) (hex forkAligned)
   \<and> \<not> isVerticallyAligned (hex forkSource) (hex forkAside)
   \<and> findClosestTarget forkSource [forkAside, forkAligned] 2 (discGrid 4) defaultCanTraverse
        True emptyCache
      = Some (Some \<lparr>hexId = 30, targetDistance = 1\<rparr>, emptyCache)
   \<and> meleeDistances forkSource 1 (discGrid 4) defaultCanTraverse True [forkAside, forkAligned]
        emptyCache
      = Some [(forkAside, \<lparr>movementDistance = 2, canReach = True, directDistance = 3\<rparr>),
              (forkAligned, \<lparr>movementDistance = 2, canReach = True, directDistance = 3\<rparr>)]
   \<and> (\<exists>cache'. findClosestTarget forkSource [forkAside, forkAligned] 1 (discGrid 4)
          defaultCanTraverse True emptyCache
        = Some (Some \<lparr>hexId = 30, targetDistance = 2\<rparr>, cache'))"
proof -
  have rc: "rangedCandidates forkSource [forkAside, forkAligned] 2 (discGrid 4) defaultCanTraverse
     = [forkAside, forkAligned]"
    by code_simp
  have md: "meleeDistances forkSource 1 (discGrid 4) defaultCanTraverse True
        [forkAside, forkAligned] emptyCache
      = Some [(forkAside, \<lparr>movementDistance = 2, canReach = True, directDistance = 3\<rparr>),
              (forkAligned, \<lparr>movementDistance = 2, canReach = True, directDistance = 3\<rparr>)]"
    by code_simp
  have rd: "rangedMovementDistance (calculateRangedMovementDistance (hex forkSource)
        (map hex [forkAside, forkAligned]) 2 (discGrid 4) defaultCanTraverse) = 1"
    by code_simp
  have va: "isVerticallyAligned (hex forkSource) (hex forkAligned)"
    and vn: "\<not> isVerticallyAligned (hex forkSource) (hex forkAside)"
    and ne: "forkAside \<noteq> forkAligned" "hex forkAside \<noteq> hex forkAligned"
    and ids: "getId (hex forkAligned) = 30" "getId (hex forkAside) \<noteq> getId (hex forkAligned)"
    by (simp_all add: isVerticallyAligned_def forkSource_def forkAligned_def forkAside_def
          mkHex_def getId_def)
  show ?thesis
    using vertically_aligned_candidate_selected [of 2 forkAligned forkSource
        "[forkAside, forkAligned]" "discGrid 4" defaultCanTraverse True emptyCache]
      vertically_aligned_candidate_selected [of 1 forkAligned forkSource
        "[forkAside, forkAligned]" "discGrid 4" defaultCanTraverse True emptyCache
        "[(forkAside, \<lparr>movementDistance = 2, canReach = True, directDistance = 3\<rparr>),
          (forkAligned, \<lparr>movementDistance = 2, canReach = True, directDistance = 3\<rparr>)]"
        "\<lparr>movementDistance = 2, canReach = True, directDistance = 3\<rparr>"]
      rc md rd va vn ne ids
    by auto
qed

subsection \<open>The path search\<close>

lemma distance_neighbor: "d < 6 \<Longrightarrow> distance a (neighbor a d) = 1"
proof -
  assume "d < 6"
  then consider "d = 0" | "d = 1" | "d = 2" | "d = 3" | "d = 4" | "d = 5" by linarith
  then show ?thesis
    by cases (simp_all add: neighbor_def directions_def distance_def)
qed

lemma distance_same_key: "toString b = toString b' \<Longrightarrow> distance a b = distance a b'"
  by (simp add: toString_def distance_def)

lemma equals_toString: "equals a b \<longleftrightarrow> toString a = toString b"
  by (auto simp: equals_def toString_def)

lemma reconstruct_linked:
  assumes "linked start n"
    and "successively (\<lambda>a b. distance a b = 1) (node_hex n # acc)"
  shows "hd (reconstruct n acc) = start
       \<and> successively (\<lambda>a b. distance a b = 1) (reconstruct n acc)
       \<and> last (reconstruct n acc) = last (node_hex n # acc)
       \<and> reconstruct n acc \<noteq> []"
  using assms
proof (induction n acc rule: reconstruct.induct)
  case (1 a cg ch cf path)
  then show ?case by simp
next
  case (2 a cg ch cf p path)
  have "successively (\<lambda>a b. distance a b = 1) (node_hex p # a # path)"
    using "2.prems" by simp
  with "2.IH" "2.prems"(1) show ?case by simp
qed

lemma set_enqueue: "set (enqueue x p pq) = insert (x, p) (set pq)"
proof -
  have "set pq = set (takeWhile (\<lambda>e. snd e \<le> p) pq) \<union> set (dropWhile (\<lambda>e. snd e \<le> p) pq)"
    by (metis set_append takeWhile_dropWhile_id)
  then show ?thesis by (auto simp: enqueue_def)
qed

lemma set_updatePriority: "set (updatePriority x p eq pq) \<subseteq> insert (x, p) (set pq)"
  by (auto simp: updatePriority_def set_enqueue)

lemma dequeue_Some: "dequeue pq = Some (x, rest) \<Longrightarrow> \<exists>p. pq = (x, p) # rest"
  by (cases pq) (auto simp: dequeue_def)

lemma searchInv_nodeD:
  "searchInv start st \<Longrightarrow> nodeMap st k = Some n
     \<Longrightarrow> toString (node_hex n) = k \<and> linked start n"
  unfolding searchInv_def by blast

lemma searchInv_openD:
  "searchInv start st \<Longrightarrow> e \<in> set (openSet st) \<Longrightarrow> linked start (fst e)"
  unfolding searchInv_def by blast

lemma searchInvI:
  assumes "\<And>k n. nodeMap st k = Some n \<Longrightarrow> toString (node_hex n) = k \<and> linked start n"
    and "\<And>e. e \<in> set (openSet st) \<Longrightarrow> linked start (fst e)"
  shows "searchInv start st"
  unfolding searchInv_def using assms by blast

lemma searchInv_update:
  assumes inv: "searchInv start st"
    and ln: "linked start n"
    and key: "toString (node_hex n) = k"
    and q: "set pq \<subseteq> insert (n, p) (set (openSet st))"
  shows "searchInv start (st\<lparr>openSet := pq, nodeMap := (nodeMap st)(k \<mapsto> n)\<rparr>)"
proof (rule searchInvI)
  fix k' n'
  assume "nodeMap (st\<lparr>openSet := pq, nodeMap := (nodeMap st)(k \<mapsto> n)\<rparr>) k' = Some n'"
  then have "(k' = k \<and> n' = n) \<or> nodeMap st k' = Some n'"
    by (cases "k' = k") simp_all
  then show "toString (node_hex n') = k' \<and> linked start n'"
    using ln key searchInv_nodeD [OF inv] by blast
next
  fix e
  assume "e \<in> set (openSet (st\<lparr>openSet := pq, nodeMap := (nodeMap st)(k \<mapsto> n)\<rparr>))"
  then have "e = (n, p) \<or> e \<in> set (openSet st)" using q by auto
  then show "linked start (fst e)" using ln searchInv_openD [OF inv] by (metis fst_conv)
qed

lemma searchInv_dequeued:
  assumes inv: "searchInv start st" and q: "openSet st = (current, pr) # rest"
  shows "searchInv start (st\<lparr>openSet := rest, closedSet := cs\<rparr>)"
proof (rule searchInvI)
  fix k n
  assume "nodeMap (st\<lparr>openSet := rest, closedSet := cs\<rparr>) k = Some n"
  then show "toString (node_hex n) = k \<and> linked start n"
    using searchInv_nodeD [OF inv] by simp
next
  fix e
  assume "e \<in> set (openSet (st\<lparr>openSet := rest, closedSet := cs\<rparr>))"
  then have "e \<in> set (openSet st)" using q by simp
  then show "linked start (fst e)" by (rule searchInv_openD [OF inv])
qed

lemma visitNeighbor_inv:
  assumes inv: "searchInv start st"
    and cur: "linked start current"
    and dir: "d < 6"
  shows "searchInv start (visitNeighbor goal gt ct current d st)"
proof -
  let ?nb = "neighbor (node_hex current) d"
  have adj: "distance (node_hex current) ?nb = 1" by (rule distance_neighbor [OF dir])
  show ?thesis
  proof (cases "toString ?nb \<in> closedSet st \<or> gt ?nb = None
                \<or> (\<exists>tile. gt ?nb = Some tile \<and> \<not> ct tile)")
    case True
    then have "visitNeighbor goal gt ct current d st = st"
      by (auto simp: visitNeighbor_def Let_def split: option.splits)
    then show ?thesis using inv by simp
  next
    case False
    then obtain tile where t: "toString ?nb \<notin> closedSet st" "gt ?nb = Some tile" "ct tile"
      by auto
    show ?thesis
    proof (cases "nodeMap st (toString ?nb)")
      case None
      let ?n = "PathNode ?nb (node_g current + 1) (distance ?nb goal)
                  (node_g current + 1 + distance ?nb goal) (Some current)"
      have eq: "visitNeighbor goal gt ct current d st
          = st\<lparr>openSet := enqueue ?n (node_f ?n) (openSet st),
                nodeMap := (nodeMap st)(toString ?nb \<mapsto> ?n)\<rparr>"
        using t None by (simp add: visitNeighbor_def Let_def)
      have ln: "linked start ?n" using adj cur by simp
      show ?thesis
        unfolding eq
      proof (rule searchInv_update [OF inv ln])
        show "toString (node_hex ?n) = toString ?nb" by simp
        show "set (enqueue ?n (node_f ?n) (openSet st))
            \<subseteq> insert (?n, node_f ?n) (set (openSet st))"
          unfolding set_enqueue by (rule subset_refl)
      qed
    next
      case (Some old)
      have key: "toString (node_hex old) = toString ?nb"
        using searchInv_nodeD [OF inv Some] by blast
      show ?thesis
      proof (cases "node_g current + 1 < node_g old")
        case False
        then have "visitNeighbor goal gt ct current d st = st"
          using t Some by (simp add: visitNeighbor_def Let_def)
        then show ?thesis using inv by simp
      next
        case True
        let ?n = "PathNode (node_hex old) (node_g current + 1) (node_h old)
                    (node_g current + 1 + node_h old) (Some current)"
        have eq: "visitNeighbor goal gt ct current d st
            = st\<lparr>openSet := updatePriority ?n (node_f ?n)
                     (\<lambda>a b. equals (node_hex a) (node_hex b)) (openSet st),
                  nodeMap := (nodeMap st)(toString ?nb \<mapsto> ?n)\<rparr>"
          using t Some True by (simp add: visitNeighbor_def Let_def)
        have "distance (node_hex current) (node_hex old) = 1"
          using adj distance_same_key [OF key] by simp
        then have ln: "linked start ?n" using cur by simp
        show ?thesis
          unfolding eq
        proof (rule searchInv_update [OF inv ln])
          show "toString (node_hex ?n) = toString ?nb" using key by simp
          show "set (updatePriority ?n (node_f ?n)
                  (\<lambda>a b. equals (node_hex a) (node_hex b)) (openSet st))
              \<subseteq> insert (?n, node_f ?n) (set (openSet st))"
            by (rule set_updatePriority)
        qed
      qed
    qed
  qed
qed

lemma fold_visitNeighbor_inv:
  assumes "searchInv start st" "linked start current" "\<forall>d \<in> set ds. d < 6"
  shows "searchInv start (fold (visitNeighbor goal gt ct current) ds st)"
  using assms
proof (induction ds arbitrary: st)
  case Nil
  then show ?case by simp
next
  case (Cons d ds)
  have "searchInv start (visitNeighbor goal gt ct current d st)"
    using Cons.prems by (simp add: visitNeighbor_inv)
  then show ?case using Cons.IH Cons.prems by simp
qed

lemma expand_inv:
  assumes "searchInv start st" "linked start current"
  shows "searchInv start (expand goal gt ct current st)"
  unfolding expand_def by (rule fold_visitNeighbor_inv [OF assms]) simp

lemma findPathLoop_step:
  "findPathLoop goal gt ct st =
     (case dequeue (openSet st) of
        None \<Rightarrow> Some None
      | Some (current, rest) \<Rightarrow>
          if equals (node_hex current) goal then Some (Some (reconstruct current []))
          else findPathLoop goal gt ct
                 (expand goal gt ct current
                    (st\<lparr>openSet := rest,
                        closedSet := insert (toString (node_hex current)) (closedSet st)\<rparr>)))"
  by (rule findPathLoop.simps)

lemma reconstruct_good:
  assumes "linked start current" "equals (node_hex current) goal"
  shows "goodPath start goal (reconstruct current [])"
  using reconstruct_linked [OF assms(1), of "[]"] assms(2) by (simp add: goodPath_def)

lemma findPathLoop_sound_aux:
  assumes "findPathLoop goal gt ct st = Some y"
  shows "searchInv start st \<longrightarrow> (\<forall>p. y = Some p \<longrightarrow> goodPath start goal p)"
proof (rule findPathLoop.raw_induct
    [where P = "\<lambda>goal gt ct st y. searchInv start st \<longrightarrow> (\<forall>p. y = Some p \<longrightarrow> goodPath start goal p)",
     OF _ assms])
  fix loop :: "Hex \<Rightarrow> (Hex \<Rightarrow> GridTile option) \<Rightarrow> (GridTile \<Rightarrow> bool) \<Rightarrow> SearchState
     \<Rightarrow> Hex list option option"
  fix goal gt ct st res
  assume ih: "\<And>gt ct st g y. loop gt ct st g = Some y \<Longrightarrow>
      searchInv start g \<longrightarrow> (\<forall>p. y = Some p \<longrightarrow> goodPath start gt p)"
  assume body: "(case dequeue (openSet st) of
        None \<Rightarrow> Some None
      | Some (current, rest) \<Rightarrow>
          if equals (node_hex current) goal then Some (Some (reconstruct current []))
          else loop goal gt ct
                 (expand goal gt ct current
                    (st\<lparr>openSet := rest,
                        closedSet := insert (toString (node_hex current)) (closedSet st)\<rparr>)))
      = Some res"
  show "searchInv start st \<longrightarrow> (\<forall>p. res = Some p \<longrightarrow> goodPath start goal p)"
  proof (intro impI allI)
    fix p
    assume inv: "searchInv start st" and rp: "res = Some p"
    show "goodPath start goal p"
    proof (cases "dequeue (openSet st)")
      case None
      then have "res = None" using body by simp
      then show ?thesis using rp by simp
    next
      case (Some cr)
      obtain current rest where cr: "cr = (current, rest)" by (cases cr)
      have dq: "dequeue (openSet st) = Some (current, rest)" using Some cr by simp
      from dequeue_Some [OF dq] obtain pr where q: "openSet st = (current, pr) # rest"
        by blast
      have lc: "linked start current"
        using searchInv_openD [OF inv, of "(current, pr)"] q by simp
      show ?thesis
      proof (cases "equals (node_hex current) goal")
        case True
        then have "res = Some (reconstruct current [])" using body dq by simp
        then have "p = reconstruct current []" using rp by simp
        then show ?thesis using reconstruct_good [OF lc True] by simp
      next
        case False
        let ?st0 = "st\<lparr>openSet := rest,
                     closedSet := insert (toString (node_hex current)) (closedSet st)\<rparr>"
        have lp: "loop goal gt ct (expand goal gt ct current ?st0) = Some res"
          using body dq False by simp
        have "searchInv start ?st0" by (rule searchInv_dequeued [OF inv q])
        then have "searchInv start (expand goal gt ct current ?st0)"
          using lc by (rule expand_inv)
        then show ?thesis using ih [OF lp] rp by blast
      qed
    qed
  qed
qed

lemma startState_inv:
  "searchInv start
     \<lparr>openSet = enqueue (PathNode start 0 (distance start goal) (distance start goal) None)
                  (distance start goal) [],
      closedSet = {},
      nodeMap = [toString start \<mapsto> PathNode start 0 (distance start goal) (distance start goal) None]\<rparr>"
proof (rule searchInvI)
  fix k n
  assume "nodeMap \<lparr>openSet = enqueue (PathNode start 0 (distance start goal) (distance start goal) None)
                  (distance start goal) [],
      closedSet = {},
      nodeMap = [toString start \<mapsto> PathNode start 0 (distance start goal) (distance start goal) None]\<rparr>
      k = Some n"
  then have "k = toString start \<and> n = PathNode start 0 (distance start goal) (distance start goal) None"
    by (cases "k = toString start") simp_all
  then show "toString (node_hex n) = k \<and> linked start n" by simp
next
  fix e
  assume "e \<in> set (openSet \<lparr>openSet = enqueue (PathNode start 0 (distance start goal) (distance start goal) None)
                  (distance start goal) [],
      closedSet = {},
      nodeMap = [toString start \<mapsto> PathNode start 0 (distance start goal) (distance start goal) None]\<rparr>)"
  then have "e = (PathNode start 0 (distance start goal) (distance start goal) None, distance start goal)"
    by (simp add: enqueue_def)
  then show "linked start (fst e)" by simp
qed

lemma findPath_unfold:
  "findPath start goal gt ct = findPathLoop goal gt ct
     \<lparr>openSet = enqueue (PathNode start 0 (distance start goal) (distance start goal) None)
                  (distance start goal) [],
      closedSet = {},
      nodeMap = [toString start \<mapsto> PathNode start 0 (distance start goal) (distance start goal) None]\<rparr>"
  by (simp add: findPath_def Let_def)

lemma findPath_same_hex:
  assumes "equals start goal"
  shows "findPath start goal gt ct = Some (Some [start])"
  unfolding findPath_unfold
  by (subst findPathLoop.simps) (simp add: enqueue_def dequeue_def assms)

text \<open>
  Claim C1. Whenever \<open>findPath\<close> returns a path, the path has at least one element, its
  first element is the start, its last element is the goal as a hex (\<open>equals\<close>, the test
  that ends the search; the identifier of a hex takes no part in it), every two consecutive
  hexes are at distance 1, and the path has exactly one element when start equals goal.
\<close>

theorem findPath_returns_adjacent_path:
  assumes "findPath start goal getTile canTraverse = Some (Some path)"
  shows "1 \<le> length path \<and> hd path = start \<and> equals (last path) goal
       \<and> (\<forall>i. Suc i < length path \<longrightarrow> distance (path ! i) (path ! Suc i) = 1)
       \<and> (equals start goal \<longrightarrow> length path = 1)"
proof -
  have "goodPath start goal path"
    using findPathLoop_sound_aux [OF assms [unfolded findPath_unfold], of start] startState_inv
    by blast
  moreover have "equals start goal \<longrightarrow> length path = 1"
    using findPath_same_hex [of start goal getTile canTraverse] assms by auto
  ultimately show ?thesis
    by (simp add: goodPath_def successively_conv_nth Suc_le_eq)
qed

theorem findPath_returns_adjacent_path_witness:
  "findPath (mkHex 0 0 1) (mkHex 3 0 2) (discGrid 4) defaultCanTraverse
     = Some (Some [mkHex 0 0 1, mkHex 1 0 (-1), mkHex 2 0 (-1), mkHex 3 0 (-1)])
   \<and> hd [mkHex 0 0 1, mkHex 1 0 (-1), mkHex 2 0 (-1), mkHex 3 0 (-1)] = mkHex 0 0 1
   \<and> equals (last [mkHex 0 0 1, mkHex 1 0 (-1), mkHex 2 0 (-1), mkHex 3 0 (-1)]) (mkHex 3 0 2)
   \<and> distance (mkHex 0 0 1) (mkHex 1 0 (-1)) = 1
   \<and> distance (mkHex 1 0 (-1)) (mkHex 2 0 (-1)) = 1
   \<and> distance (mkHex 2 0 (-1)) (mkHex 3 0 (-1)) = 1"
proof -
  let ?p = "[mkHex 0 0 1, mkHex 1 0 (-1), mkHex 2 0 (-1), mkHex 3 0 (-1)]"
  have run: "findPath (mkHex 0 0 1) (mkHex 3 0 2) (discGrid 4) defaultCanTraverse
     = Some (Some ?p)"
    by code_simp
  note shape = findPath_returns_adjacent_path [OF run]
  from shape have steps: "\<And>i. Suc i < length ?p \<Longrightarrow> distance (?p ! i) (?p ! Suc i) = 1"
    by blast
  from steps [of 0] steps [of 1] steps [of 2] shape run show ?thesis
    by simp
qed

lemma distinct_map_insert_mid:
  "distinct (map f (xs @ e # ys)) \<longleftrightarrow> f e \<notin> f ` set (xs @ ys) \<and> distinct (map f (xs @ ys))"
  by (induction xs) auto

lemma set_map_insert_mid:
  "set (map f (xs @ e # ys)) = insert (f e) (set (map f (xs @ ys)))"
  by auto

lemma set_queueKeys_enqueue:
  "set (queueKeys (enqueue x p pq)) = insert (toString (node_hex x)) (set (queueKeys pq))"
  unfolding queueKeys_def enqueue_def set_map_insert_mid by simp

lemma distinct_queueKeys_enqueue:
  "distinct (queueKeys (enqueue x p pq)) \<longleftrightarrow>
     toString (node_hex x) \<notin> set (queueKeys pq) \<and> distinct (queueKeys pq)"
  unfolding queueKeys_def enqueue_def distinct_map_insert_mid by simp

lemma queueKeys_filter_key:
  "queueKeys (filter (\<lambda>e. \<not> equals (node_hex (fst e)) (node_hex x)) pq)
     = filter (\<lambda>k. k \<noteq> toString (node_hex x)) (queueKeys pq)"
  by (induction pq) (simp_all add: queueKeys_def equals_toString)

lemma updatePriority_keys:
  assumes "distinct (queueKeys pq)"
  shows "distinct (queueKeys (updatePriority x p (\<lambda>a b. equals (node_hex a) (node_hex b)) pq))
       \<and> set (queueKeys (updatePriority x p (\<lambda>a b. equals (node_hex a) (node_hex b)) pq))
           = set (queueKeys pq)"
proof (cases "\<exists>e \<in> set pq. equals (node_hex (fst e)) (node_hex x)")
  case False
  then show ?thesis using assms by (simp add: updatePriority_def)
next
  case True
  then obtain e where e: "e \<in> set pq" "equals (node_hex (fst e)) (node_hex x)" by blast
  have "toString (node_hex x) = (\<lambda>e. toString (node_hex (fst e))) e"
    using e(2) by (simp add: equals_toString)
  then have kin: "toString (node_hex x) \<in> set (queueKeys pq)"
    unfolding queueKeys_def set_map using e(1) by (rule image_eqI)
  let ?rest = "filter (\<lambda>e. \<not> equals (node_hex (fst e)) (node_hex x)) pq"
  have eq: "updatePriority x p (\<lambda>a b. equals (node_hex a) (node_hex b)) pq = enqueue x p ?rest"
    using True by (simp add: updatePriority_def)
  have d: "distinct (queueKeys ?rest)" and n: "toString (node_hex x) \<notin> set (queueKeys ?rest)"
    and s: "set (queueKeys ?rest) = set (queueKeys pq) - {toString (node_hex x)}"
    using assms by (auto simp: queueKeys_filter_key)
  have i: "insert (toString (node_hex x)) (set (queueKeys ?rest)) = set (queueKeys pq)"
    unfolding s using kin by blast
  show ?thesis
    unfolding eq distinct_queueKeys_enqueue set_queueKeys_enqueue i
    using d n by blast
qed

lemma openInvI:
  assumes "distinct (queueKeys (openSet st))"
    and "set (queueKeys (openSet st)) \<subseteq> K - closedSet st"
    and "set (queueKeys (openSet st)) \<subseteq> dom (nodeMap st)"
    and "\<And>k n. nodeMap st k = Some n \<Longrightarrow> toString (node_hex n) = k"
  shows "openInv K st"
  unfolding openInv_def using assms by blast

lemma openInv_distinct: "openInv K st \<Longrightarrow> distinct (queueKeys (openSet st))"
  unfolding openInv_def by blast

lemma openInv_keys: "openInv K st \<Longrightarrow> set (queueKeys (openSet st)) \<subseteq> K - closedSet st"
  unfolding openInv_def by blast

lemma openInv_dom: "openInv K st \<Longrightarrow> set (queueKeys (openSet st)) \<subseteq> dom (nodeMap st)"
  unfolding openInv_def by blast

lemma openInv_node: "openInv K st \<Longrightarrow> nodeMap st k = Some n \<Longrightarrow> toString (node_hex n) = k"
  unfolding openInv_def by blast

lemma visitNeighbor_closedSet:
  "closedSet (visitNeighbor goal gt ct current d st) = closedSet st"
  by (simp add: visitNeighbor_def Let_def split: option.splits)

lemma expand_closedSet: "closedSet (expand goal gt ct current st) = closedSet st"
proof -
  have "closedSet (fold (visitNeighbor goal gt ct current) ds st) = closedSet st" for ds
    by (induction ds arbitrary: st) (simp_all add: visitNeighbor_closedSet)
  then show ?thesis by (simp add: expand_def)
qed

lemma visitNeighbor_openInv:
  assumes inv: "openInv K st"
    and K: "toString ` {a. \<exists>t. gt a = Some t \<and> ct t} \<subseteq> K"
  shows "openInv K (visitNeighbor goal gt ct current d st)"
proof -
  let ?nb = "neighbor (node_hex current) d"
  show ?thesis
  proof (cases "toString ?nb \<in> closedSet st \<or> gt ?nb = None
                \<or> (\<exists>tile. gt ?nb = Some tile \<and> \<not> ct tile)")
    case True
    then have "visitNeighbor goal gt ct current d st = st"
      by (auto simp: visitNeighbor_def Let_def split: option.splits)
    then show ?thesis using inv by simp
  next
    case False
    then obtain tile where t: "toString ?nb \<notin> closedSet st" "gt ?nb = Some tile" "ct tile"
      by auto
    have inK: "toString ?nb \<in> K" using K t(2,3) by blast
    show ?thesis
    proof (cases "nodeMap st (toString ?nb)")
      case None
      let ?n = "PathNode ?nb (node_g current + 1) (distance ?nb goal)
                  (node_g current + 1 + distance ?nb goal) (Some current)"
      let ?st = "st\<lparr>openSet := enqueue ?n (node_f ?n) (openSet st),
                nodeMap := (nodeMap st)(toString ?nb \<mapsto> ?n)\<rparr>"
      have eq: "visitNeighbor goal gt ct current d st = ?st"
        using t None by (simp add: visitNeighbor_def Let_def)
      have fresh: "toString ?nb \<notin> set (queueKeys (openSet st))"
        using openInv_dom [OF inv] None by (auto simp: dom_def)
      have "openInv K ?st"
      proof (rule openInvI)
        show "distinct (queueKeys (openSet ?st))"
          using fresh openInv_distinct [OF inv] by (simp add: distinct_queueKeys_enqueue)
        show "set (queueKeys (openSet ?st)) \<subseteq> K - closedSet ?st"
          using openInv_keys [OF inv] inK t(1) by (auto simp: set_queueKeys_enqueue)
        show "set (queueKeys (openSet ?st)) \<subseteq> dom (nodeMap ?st)"
          using openInv_dom [OF inv] by (auto simp: set_queueKeys_enqueue)
        fix k n
        assume "nodeMap ?st k = Some n"
        then have "(k = toString ?nb \<and> n = ?n) \<or> nodeMap st k = Some n"
          by (cases "k = toString ?nb") simp_all
        then show "toString (node_hex n) = k"
        proof
          assume "k = toString ?nb \<and> n = ?n"
          then show ?thesis by simp
        next
          assume "nodeMap st k = Some n"
          then show ?thesis by (rule openInv_node [OF inv])
        qed
      qed
      then show ?thesis unfolding eq .
    next
      case (Some old)
      have key: "toString (node_hex old) = toString ?nb" by (rule openInv_node [OF inv Some])
      show ?thesis
      proof (cases "node_g current + 1 < node_g old")
        case False
        then have "visitNeighbor goal gt ct current d st = st"
          using t Some by (simp add: visitNeighbor_def Let_def)
        then show ?thesis using inv by simp
      next
        case True
        let ?n = "PathNode (node_hex old) (node_g current + 1) (node_h old)
                    (node_g current + 1 + node_h old) (Some current)"
        let ?pq = "updatePriority ?n (node_f ?n)
                     (\<lambda>a b. equals (node_hex a) (node_hex b)) (openSet st)"
        let ?st = "st\<lparr>openSet := ?pq, nodeMap := (nodeMap st)(toString ?nb \<mapsto> ?n)\<rparr>"
        have eq: "visitNeighbor goal gt ct current d st = ?st"
          using t Some True by (simp add: visitNeighbor_def Let_def)
        have up: "distinct (queueKeys ?pq)" "set (queueKeys ?pq) = set (queueKeys (openSet st))"
          using updatePriority_keys [OF openInv_distinct [OF inv], of ?n "node_f ?n"] by blast+
        have "openInv K ?st"
        proof (rule openInvI)
          show "distinct (queueKeys (openSet ?st))" using up(1) by simp
          show "set (queueKeys (openSet ?st)) \<subseteq> K - closedSet ?st"
            using up(2) openInv_keys [OF inv] by simp
          show "set (queueKeys (openSet ?st)) \<subseteq> dom (nodeMap ?st)"
            using up(2) openInv_dom [OF inv] by auto
          fix k n
          assume "nodeMap ?st k = Some n"
          then have "(k = toString ?nb \<and> n = ?n) \<or> nodeMap st k = Some n"
            by (cases "k = toString ?nb") simp_all
          then show "toString (node_hex n) = k"
          proof
            assume "k = toString ?nb \<and> n = ?n"
            then show ?thesis by (simp add: key)
          next
            assume "nodeMap st k = Some n"
            then show ?thesis by (rule openInv_node [OF inv])
          qed
        qed
        then show ?thesis unfolding eq .
      qed
    qed
  qed
qed

lemma expand_openInv:
  assumes "openInv K st"
    and "toString ` {a. \<exists>t. gt a = Some t \<and> ct t} \<subseteq> K"
  shows "openInv K (expand goal gt ct current st)"
proof -
  have "openInv K (fold (visitNeighbor goal gt ct current) ds st)" for ds
    using assms(1)
  proof (induction ds arbitrary: st)
    case Nil
    then show ?case by simp
  next
    case (Cons d ds)
    have "openInv K (visitNeighbor goal gt ct current d st)"
      by (rule visitNeighbor_openInv [OF Cons.prems assms(2)])
    then show ?case using Cons.IH by simp
  qed
  then show ?thesis by (simp add: expand_def)
qed

lemma openInv_dequeued:
  assumes inv: "openInv K st" and q: "openSet st = (current, pr) # rest"
  shows "toString (node_hex current) \<in> K - closedSet st"
    and "openInv K (st\<lparr>openSet := rest,
           closedSet := insert (toString (node_hex current)) (closedSet st)\<rparr>)"
proof -
  let ?st = "st\<lparr>openSet := rest,
           closedSet := insert (toString (node_hex current)) (closedSet st)\<rparr>"
  have d: "distinct (toString (node_hex current) # queueKeys rest)"
    using openInv_distinct [OF inv] q by (simp add: queueKeys_def)
  have k: "set (toString (node_hex current) # queueKeys rest) \<subseteq> K - closedSet st"
    using openInv_keys [OF inv] q by (simp add: queueKeys_def)
  have m: "set (queueKeys rest) \<subseteq> dom (nodeMap st)"
    using openInv_dom [OF inv] q by (simp add: queueKeys_def)
  show "toString (node_hex current) \<in> K - closedSet st" using k by simp
  show "openInv K ?st"
  proof (rule openInvI)
    show "distinct (queueKeys (openSet ?st))" using d by simp
    show "set (queueKeys (openSet ?st)) \<subseteq> K - closedSet ?st" using d k by auto
    show "set (queueKeys (openSet ?st)) \<subseteq> dom (nodeMap ?st)" using m by simp
    fix k n
    assume "nodeMap ?st k = Some n"
    then have "nodeMap st k = Some n" by simp
    then show "toString (node_hex n) = k" by (rule openInv_node [OF inv])
  qed
qed

lemma findPathLoop_terminates:
  assumes fin: "finite K"
    and K: "toString ` {a. \<exists>t. gt a = Some t \<and> ct t} \<subseteq> K"
    and inv: "openInv K st"
  shows "\<exists>res. findPathLoop goal gt ct st = Some res"
  using inv
proof (induction "card (K - closedSet st)" arbitrary: st rule: less_induct)
  case less
  show ?case
  proof (cases "dequeue (openSet st)")
    case None
    then show ?thesis by (subst findPathLoop.simps) simp
  next
    case (Some cr)
    obtain current rest where cr: "cr = (current, rest)" by (cases cr)
    have dq: "dequeue (openSet st) = Some (current, rest)" using Some cr by simp
    from dequeue_Some [OF dq] obtain pr where q: "openSet st = (current, pr) # rest"
      by blast
    show ?thesis
    proof (cases "equals (node_hex current) goal")
      case True
      then show ?thesis using dq by (subst findPathLoop.simps) simp
    next
      case False
      let ?st0 = "st\<lparr>openSet := rest,
                     closedSet := insert (toString (node_hex current)) (closedSet st)\<rparr>"
      let ?st1 = "expand goal gt ct current ?st0"
      have kc: "toString (node_hex current) \<in> K - closedSet st"
        by (rule openInv_dequeued(1) [OF less.prems q])
      have inv0: "openInv K ?st0" by (rule openInv_dequeued(2) [OF less.prems q])
      have inv1: "openInv K ?st1" by (rule expand_openInv [OF inv0 K])
      have cl: "closedSet ?st1 = insert (toString (node_hex current)) (closedSet st)"
        by (simp add: expand_closedSet)
      have "K - closedSet ?st1 = (K - closedSet st) - {toString (node_hex current)}"
        unfolding cl by blast
      moreover have "card ((K - closedSet st) - {toString (node_hex current)})
          < card (K - closedSet st)"
        using kc fin by (intro card_Diff1_less) simp_all
      ultimately have "card (K - closedSet ?st1) < card (K - closedSet st)" by simp
      from less.hyps [OF this inv1] obtain res where
        r: "findPathLoop goal gt ct ?st1 = Some res" by blast
      have "findPathLoop goal gt ct st = findPathLoop goal gt ct ?st1"
        using dq False by (subst findPathLoop.simps) simp
      then show ?thesis using r by simp
    qed
  qed
qed

lemma startState_openInv:
  "openInv (traversableKeys gt ct start)
     \<lparr>openSet = enqueue (PathNode start 0 (distance start goal) (distance start goal) None)
                  (distance start goal) [],
      closedSet = {},
      nodeMap = [toString start \<mapsto> PathNode start 0 (distance start goal) (distance start goal) None]\<rparr>"
proof (rule openInvI)
  fix k n
  assume "nodeMap \<lparr>openSet = enqueue (PathNode start 0 (distance start goal) (distance start goal) None)
                  (distance start goal) [],
      closedSet = {},
      nodeMap = [toString start \<mapsto> PathNode start 0 (distance start goal) (distance start goal) None]\<rparr>
      k = Some n"
  then have "k = toString start \<and> n = PathNode start 0 (distance start goal) (distance start goal) None"
    by (cases "k = toString start") simp_all
  then show "toString (node_hex n) = k" by simp
qed (simp_all add: enqueue_def queueKeys_def traversableKeys_def)

lemma findPath_terminates:
  assumes "finite (toString ` {a. \<exists>t. gt a = Some t \<and> ct t})"
  shows "\<exists>res. findPath start goal gt ct = Some res"
  unfolding findPath_unfold
proof (rule findPathLoop_terminates [OF _ _ startState_openInv])
  show "finite (traversableKeys gt ct start)" using assms by (simp add: traversableKeys_def)
  show "toString ` {a. \<exists>t. gt a = Some t \<and> ct t} \<subseteq> traversableKeys gt ct start"
    by (auto simp: traversableKeys_def)
qed

lemma blockedInvI:
  assumes "\<And>e. e \<in> set (openSet st) \<Longrightarrow> \<not> equals (node_hex (fst e)) goal"
    and "\<And>k n. nodeMap st k = Some n \<Longrightarrow> \<not> equals (node_hex n) goal"
  shows "blockedInv goal st"
  unfolding blockedInv_def using assms by blast

lemma blockedInv_open:
  "blockedInv goal st \<Longrightarrow> e \<in> set (openSet st) \<Longrightarrow> \<not> equals (node_hex (fst e)) goal"
  unfolding blockedInv_def by blast

lemma blockedInv_node:
  "blockedInv goal st \<Longrightarrow> nodeMap st k = Some n \<Longrightarrow> \<not> equals (node_hex n) goal"
  unfolding blockedInv_def by blast

lemma blockedInv_update:
  assumes inv: "blockedInv goal st"
    and nn: "\<not> equals (node_hex n) goal"
    and q: "set pq \<subseteq> insert (n, p) (set (openSet st))"
  shows "blockedInv goal (st\<lparr>openSet := pq, nodeMap := (nodeMap st)(k \<mapsto> n)\<rparr>)"
proof (rule blockedInvI)
  fix e
  assume "e \<in> set (openSet (st\<lparr>openSet := pq, nodeMap := (nodeMap st)(k \<mapsto> n)\<rparr>))"
  then have "e = (n, p) \<or> e \<in> set (openSet st)" using q by auto
  then show "\<not> equals (node_hex (fst e)) goal"
  proof
    assume "e = (n, p)"
    then show ?thesis using nn by simp
  next
    assume "e \<in> set (openSet st)"
    then show ?thesis by (rule blockedInv_open [OF inv])
  qed
next
  fix k' n'
  assume "nodeMap (st\<lparr>openSet := pq, nodeMap := (nodeMap st)(k \<mapsto> n)\<rparr>) k' = Some n'"
  then have "(k' = k \<and> n' = n) \<or> nodeMap st k' = Some n'"
    by (cases "k' = k") simp_all
  then show "\<not> equals (node_hex n') goal"
  proof
    assume "k' = k \<and> n' = n"
    then show ?thesis using nn by simp
  next
    assume "nodeMap st k' = Some n'"
    then show ?thesis by (rule blockedInv_node [OF inv])
  qed
qed

lemma visitNeighbor_blocked:
  assumes inv: "blockedInv goal st"
    and blocked: "goalBlocked goal gt ct"
  shows "blockedInv goal (visitNeighbor goal gt ct current d st)"
proof -
  let ?nb = "neighbor (node_hex current) d"
  show ?thesis
  proof (cases "toString ?nb \<in> closedSet st \<or> gt ?nb = None
                \<or> (\<exists>tile. gt ?nb = Some tile \<and> \<not> ct tile)")
    case True
    then have "visitNeighbor goal gt ct current d st = st"
      by (auto simp: visitNeighbor_def Let_def split: option.splits)
    then show ?thesis using inv by simp
  next
    case False
    then obtain tile where t: "toString ?nb \<notin> closedSet st" "gt ?nb = Some tile" "ct tile"
      by auto
    have nbg: "\<not> equals ?nb goal" using blocked t(2,3) unfolding goalBlocked_def by blast
    show ?thesis
    proof (cases "nodeMap st (toString ?nb)")
      case None
      let ?n = "PathNode ?nb (node_g current + 1) (distance ?nb goal)
                  (node_g current + 1 + distance ?nb goal) (Some current)"
      have eq: "visitNeighbor goal gt ct current d st
          = st\<lparr>openSet := enqueue ?n (node_f ?n) (openSet st),
                nodeMap := (nodeMap st)(toString ?nb \<mapsto> ?n)\<rparr>"
        using t None by (simp add: visitNeighbor_def Let_def)
      show ?thesis
        unfolding eq
      proof (rule blockedInv_update [OF inv])
        show "\<not> equals (node_hex ?n) goal" using nbg by simp
        show "set (enqueue ?n (node_f ?n) (openSet st))
            \<subseteq> insert (?n, node_f ?n) (set (openSet st))"
          unfolding set_enqueue by (rule subset_refl)
      qed
    next
      case (Some old)
      show ?thesis
      proof (cases "node_g current + 1 < node_g old")
        case False
        then have "visitNeighbor goal gt ct current d st = st"
          using t Some by (simp add: visitNeighbor_def Let_def)
        then show ?thesis using inv by simp
      next
        case True
        let ?n = "PathNode (node_hex old) (node_g current + 1) (node_h old)
                    (node_g current + 1 + node_h old) (Some current)"
        have eq: "visitNeighbor goal gt ct current d st
            = st\<lparr>openSet := updatePriority ?n (node_f ?n)
                     (\<lambda>a b. equals (node_hex a) (node_hex b)) (openSet st),
                  nodeMap := (nodeMap st)(toString ?nb \<mapsto> ?n)\<rparr>"
          using t Some True by (simp add: visitNeighbor_def Let_def)
        show ?thesis
          unfolding eq
        proof (rule blockedInv_update [OF inv])
          show "\<not> equals (node_hex ?n) goal" using blockedInv_node [OF inv Some] by simp
          show "set (updatePriority ?n (node_f ?n)
                  (\<lambda>a b. equals (node_hex a) (node_hex b)) (openSet st))
              \<subseteq> insert (?n, node_f ?n) (set (openSet st))"
            by (rule set_updatePriority)
        qed
      qed
    qed
  qed
qed

lemma expand_blocked:
  assumes "blockedInv goal st" "goalBlocked goal gt ct"
  shows "blockedInv goal (expand goal gt ct current st)"
proof -
  have "blockedInv goal (fold (visitNeighbor goal gt ct current) ds st)" for ds
    using assms(1)
  proof (induction ds arbitrary: st)
    case Nil
    then show ?case by simp
  next
    case (Cons d ds)
    have "blockedInv goal (visitNeighbor goal gt ct current d st)"
      by (rule visitNeighbor_blocked [OF Cons.prems assms(2)])
    then show ?case using Cons.IH by simp
  qed
  then show ?thesis by (simp add: expand_def)
qed

lemma blockedInv_dequeued:
  assumes inv: "blockedInv goal st" and q: "openSet st = (current, pr) # rest"
  shows "blockedInv goal (st\<lparr>openSet := rest, closedSet := cs\<rparr>)"
proof (rule blockedInvI)
  fix e
  assume "e \<in> set (openSet (st\<lparr>openSet := rest, closedSet := cs\<rparr>))"
  then have "e \<in> set (openSet st)" using q by simp
  then show "\<not> equals (node_hex (fst e)) goal" by (rule blockedInv_open [OF inv])
next
  fix k n
  assume "nodeMap (st\<lparr>openSet := rest, closedSet := cs\<rparr>) k = Some n"
  then have "nodeMap st k = Some n" by simp
  then show "\<not> equals (node_hex n) goal" by (rule blockedInv_node [OF inv])
qed

lemma findPathLoop_blocked_aux:
  assumes "findPathLoop goal gt ct st = Some y"
  shows "goalBlocked goal gt ct \<and> blockedInv goal st \<longrightarrow> y = None"
proof (rule findPathLoop.raw_induct
    [where P = "\<lambda>goal gt ct st y. goalBlocked goal gt ct \<and> blockedInv goal st \<longrightarrow> y = None",
     OF _ assms])
  fix loop :: "Hex \<Rightarrow> (Hex \<Rightarrow> GridTile option) \<Rightarrow> (GridTile \<Rightarrow> bool) \<Rightarrow> SearchState
     \<Rightarrow> Hex list option option"
  fix goal gt ct st res
  assume ih: "\<And>gt ct st g y. loop gt ct st g = Some y \<Longrightarrow>
      goalBlocked gt ct st \<and> blockedInv gt g \<longrightarrow> y = None"
  assume body: "(case dequeue (openSet st) of
        None \<Rightarrow> Some None
      | Some (current, rest) \<Rightarrow>
          if equals (node_hex current) goal then Some (Some (reconstruct current []))
          else loop goal gt ct
                 (expand goal gt ct current
                    (st\<lparr>openSet := rest,
                        closedSet := insert (toString (node_hex current)) (closedSet st)\<rparr>)))
      = Some res"
  show "goalBlocked goal gt ct \<and> blockedInv goal st \<longrightarrow> res = None"
  proof
    assume a: "goalBlocked goal gt ct \<and> blockedInv goal st"
    then have blocked: "goalBlocked goal gt ct" and inv: "blockedInv goal st" by simp_all
    show "res = None"
    proof (cases "dequeue (openSet st)")
      case None
      then show ?thesis using body by simp
    next
      case (Some cr)
      obtain current rest where cr: "cr = (current, rest)" by (cases cr)
      have dq: "dequeue (openSet st) = Some (current, rest)" using Some cr by simp
      from dequeue_Some [OF dq] obtain pr where q: "openSet st = (current, pr) # rest"
        by blast
      have ng: "\<not> equals (node_hex current) goal"
        using blockedInv_open [OF inv, of "(current, pr)"] q by simp
      let ?st0 = "st\<lparr>openSet := rest,
                     closedSet := insert (toString (node_hex current)) (closedSet st)\<rparr>"
      have lp: "loop goal gt ct (expand goal gt ct current ?st0) = Some res"
        using body dq ng by simp
      have "blockedInv goal ?st0" by (rule blockedInv_dequeued [OF inv q])
      then have "blockedInv goal (expand goal gt ct current ?st0)"
        using blocked by (rule expand_blocked)
      then show ?thesis using ih [OF lp] blocked by blast
    qed
  qed
qed

lemma startState_blocked:
  assumes "\<not> equals start goal"
  shows "blockedInv goal
     \<lparr>openSet = enqueue (PathNode start 0 (distance start goal) (distance start goal) None)
                  (distance start goal) [],
      closedSet = {},
      nodeMap = [toString start \<mapsto> PathNode start 0 (distance start goal) (distance start goal) None]\<rparr>"
proof (rule blockedInvI)
  fix e
  assume "e \<in> set (openSet \<lparr>openSet = enqueue (PathNode start 0 (distance start goal) (distance start goal) None)
                  (distance start goal) [],
      closedSet = {},
      nodeMap = [toString start \<mapsto> PathNode start 0 (distance start goal) (distance start goal) None]\<rparr>)"
  then have "e = (PathNode start 0 (distance start goal) (distance start goal) None, distance start goal)"
    by (simp add: enqueue_def)
  then show "\<not> equals (node_hex (fst e)) goal" using assms by simp
next
  fix k n
  assume "nodeMap \<lparr>openSet = enqueue (PathNode start 0 (distance start goal) (distance start goal) None)
                  (distance start goal) [],
      closedSet = {},
      nodeMap = [toString start \<mapsto> PathNode start 0 (distance start goal) (distance start goal) None]\<rparr>
      k = Some n"
  then have "k = toString start \<and> n = PathNode start 0 (distance start goal) (distance start goal) None"
    by (cases "k = toString start") simp_all
  then show "\<not> equals (node_hex n) goal" using assms by simp
qed

lemma findPath_blocked_no_path:
  assumes "\<not> equals start goal" "goalBlocked goal gt ct"
  shows "findPath start goal gt ct \<noteq> Some (Some p)"
proof
  assume "findPath start goal gt ct = Some (Some p)"
  from findPathLoop_blocked_aux [OF this [unfolded findPath_unfold]]
    startState_blocked [OF assms(1)] assms(2)
  show False by simp
qed

lemma listed_lookup_finite:
  "finite (toString ` {a. \<exists>t. getTileHelper tiles None a = Some t \<and> ct t})"
proof (rule finite_subset)
  show "toString ` {a. \<exists>t. getTileHelper tiles None a = Some t \<and> ct t}
      \<subseteq> toString ` hex ` set tiles"
  proof
    fix k
    assume "k \<in> toString ` {a. \<exists>t. getTileHelper tiles None a = Some t \<and> ct t}"
    then obtain a t where a: "k = toString a" "find (\<lambda>t. equals (hex t) a) tiles = Some t"
      by (auto simp: getTileHelper_def)
    from a(2) have "t \<in> set tiles" "equals (hex t) a"
      by (auto simp: find_Some_iff)
    then have "toString (hex t) = k" "t \<in> set tiles" using a(1) by (simp_all add: equals_toString)
    then show "k \<in> toString ` hex ` set tiles" by blast
  qed
  show "finite (toString ` hex ` set tiles)" by simp
qed

lemma upt6: "[0..<6] = [0, 1, 2, 3, 4, 5]"
  by (simp add: upt_rec)

lemma visitNeighbor_no_tile:
  "gt (neighbor (node_hex current) d) = None \<Longrightarrow> visitNeighbor goal gt ct current d st = st"
  by (simp add: visitNeighbor_def Let_def)

lemma visitNeighbor_closed:
  "toString (neighbor (node_hex current) d) \<in> closedSet st
     \<Longrightarrow> visitNeighbor goal gt ct current d st = st"
  by (simp add: visitNeighbor_def Let_def)

lemma rayKey_inj: "rayKey i = rayKey j \<longleftrightarrow> i = j"
  by (simp add: rayKey_def)

lemma ray_step:
  assumes inv: "rayInv k st" and q: "openSet st = [(n, p)]"
  shows "rayInv (Suc k) (expand rayGoal rayGrid defaultCanTraverse n
           (st\<lparr>openSet := [], closedSet := insert (toString (node_hex n)) (closedSet st)\<rparr>))"
proof -
  let ?a = "node_hex n"
  have key: "toString ?a = rayKey k" using inv q by (auto simp: rayInv_def)
  have co: "q ?a = int k" "r ?a = 0" "s ?a = - int k"
    using key by (simp_all add: toString_def rayKey_def)
  have cl: "closedSet st = rayKey ` {..<k}" using inv by (simp add: rayInv_def)
  have nm: "\<And>j. k < j \<Longrightarrow> nodeMap st (rayKey j) = None" using inv by (simp add: rayInv_def)
  let ?st0 = "st\<lparr>openSet := [], closedSet := insert (toString ?a) (closedSet st)\<rparr>"
  let ?new = "PathNode (neighbor ?a 0) (node_g n + 1) (distance (neighbor ?a 0) rayGoal)
                (node_g n + 1 + distance (neighbor ?a 0) rayGoal) (Some n)"
  let ?st1 = "?st0\<lparr>openSet := enqueue ?new (node_f ?new) (openSet ?st0),
                    nodeMap := (nodeMap ?st0)(toString (neighbor ?a 0) \<mapsto> ?new)\<rparr>"
  have k0: "toString (neighbor ?a 0) = rayKey (Suc k)"
    by (simp add: neighbor_def directions_def toString_def rayKey_def co)
  have g0: "rayGrid (neighbor ?a 0) = Some (plainTile (neighbor ?a 0))"
    by (simp add: neighbor_def directions_def rayGrid_def co)
  have n0: "rayKey (Suc k) \<notin> closedSet ?st0"
    by (auto simp: key cl rayKey_inj)
  have m0: "nodeMap ?st0 (rayKey (Suc k)) = None" using nm [of "Suc k"] by simp
  have s1: "visitNeighbor rayGoal rayGrid defaultCanTraverse n 0 ?st0 = ?st1"
    using n0 m0 g0
    by (simp add: visitNeighbor_def Let_def k0 defaultCanTraverse_def plainTile_def)
  have gn: "rayGrid (neighbor ?a 1) = None" "rayGrid (neighbor ?a 2) = None"
    "rayGrid (neighbor ?a 4) = None" "rayGrid (neighbor ?a 5) = None"
    by (simp_all add: neighbor_def directions_def rayGrid_def co)
  have s3: "visitNeighbor rayGoal rayGrid defaultCanTraverse n 3 ?st1 = ?st1"
  proof (cases k)
    case 0
    then have "rayGrid (neighbor ?a 3) = None"
      by (simp add: neighbor_def directions_def rayGrid_def co)
    then show ?thesis by (rule visitNeighbor_no_tile [where gt = rayGrid])
  next
    case (Suc i)
    then have "toString (neighbor ?a 3) = rayKey i"
      by (simp add: neighbor_def directions_def toString_def rayKey_def co)
    moreover have "rayKey i \<in> closedSet ?st1" using Suc by (simp add: cl)
    ultimately show ?thesis by (simp add: visitNeighbor_closed)
  qed
  have n1: "visitNeighbor rayGoal rayGrid defaultCanTraverse n 1 ?st1 = ?st1"
    using gn(1) by (rule visitNeighbor_no_tile [where gt = rayGrid])
  have n2: "visitNeighbor rayGoal rayGrid defaultCanTraverse n 2 ?st1 = ?st1"
    using gn(2) by (rule visitNeighbor_no_tile [where gt = rayGrid])
  have n4: "visitNeighbor rayGoal rayGrid defaultCanTraverse n 4 ?st1 = ?st1"
    using gn(3) by (rule visitNeighbor_no_tile [where gt = rayGrid])
  have n5: "visitNeighbor rayGoal rayGrid defaultCanTraverse n 5 ?st1 = ?st1"
    using gn(4) by (rule visitNeighbor_no_tile [where gt = rayGrid])
  have ex: "expand rayGoal rayGrid defaultCanTraverse n ?st0 = ?st1"
    unfolding expand_def upt6
    by (simp only: fold.simps o_apply id_apply s1 n1 n2 s3 n4 n5)
  have "rayInv (Suc k) ?st1"
    unfolding rayInv_def
  proof (intro conjI allI impI)
    show "\<exists>n' p'. openSet ?st1 = [(n', p')] \<and> toString (node_hex n') = rayKey (Suc k)"
      using k0 by (simp add: enqueue_def)
    show "closedSet ?st1 = rayKey ` {..<Suc k}"
      by (simp add: key cl lessThan_Suc)
    fix j
    assume "Suc k < j"
    then show "nodeMap ?st1 (rayKey j) = None"
      using nm [of j] by (simp add: k0 rayKey_inj)
  qed
  then show ?thesis unfolding ex .
qed

lemma ray_diverges_aux:
  assumes "findPathLoop goal gt ct st = Some y"
  shows "goal = rayGoal \<and> gt = rayGrid \<and> ct = defaultCanTraverse \<longrightarrow> (\<forall>k. \<not> rayInv k st)"
proof (rule findPathLoop.raw_induct
    [where P = "\<lambda>goal gt ct st y.
        goal = rayGoal \<and> gt = rayGrid \<and> ct = defaultCanTraverse \<longrightarrow> (\<forall>k. \<not> rayInv k st)",
     OF _ assms])
  fix loop :: "Hex \<Rightarrow> (Hex \<Rightarrow> GridTile option) \<Rightarrow> (GridTile \<Rightarrow> bool) \<Rightarrow> SearchState
     \<Rightarrow> Hex list option option"
  fix goal gt ct st res
  assume ih: "\<And>gt ct st g y. loop gt ct st g = Some y \<Longrightarrow>
      gt = rayGoal \<and> ct = rayGrid \<and> st = defaultCanTraverse \<longrightarrow> (\<forall>k. \<not> rayInv k g)"
  assume body: "(case dequeue (openSet st) of
        None \<Rightarrow> Some None
      | Some (current, rest) \<Rightarrow>
          if equals (node_hex current) goal then Some (Some (reconstruct current []))
          else loop goal gt ct
                 (expand goal gt ct current
                    (st\<lparr>openSet := rest,
                        closedSet := insert (toString (node_hex current)) (closedSet st)\<rparr>)))
      = Some res"
  show "goal = rayGoal \<and> gt = rayGrid \<and> ct = defaultCanTraverse \<longrightarrow> (\<forall>k. \<not> rayInv k st)"
  proof (intro impI allI notI)
    fix k
    assume eqs: "goal = rayGoal \<and> gt = rayGrid \<and> ct = defaultCanTraverse"
      and inv: "rayInv k st"
    from inv obtain n p where q: "openSet st = [(n, p)]"
      and key: "toString (node_hex n) = rayKey k"
      by (auto simp: rayInv_def)
    have dq: "dequeue (openSet st) = Some (n, [])" using q by (simp add: dequeue_def)
    have ng: "\<not> equals (node_hex n) goal"
      using key eqs by (simp add: equals_toString toString_def rayKey_def rayGoal_def mkHex_def)
    let ?st1 = "expand rayGoal rayGrid defaultCanTraverse n
           (st\<lparr>openSet := [], closedSet := insert (toString (node_hex n)) (closedSet st)\<rparr>)"
    have "loop rayGoal rayGrid defaultCanTraverse ?st1 = Some res"
      using body dq ng eqs by simp
    from ih [OF this] have "\<not> rayInv (Suc k) ?st1" by simp
    then show False using ray_step [OF inv q] by simp
  qed
qed

lemma ray_start_inv:
  "rayInv 0
     \<lparr>openSet = enqueue (PathNode rayStart 0 (distance rayStart rayGoal)
                  (distance rayStart rayGoal) None) (distance rayStart rayGoal) [],
      closedSet = {},
      nodeMap = [toString rayStart \<mapsto> PathNode rayStart 0 (distance rayStart rayGoal)
                  (distance rayStart rayGoal) None]\<rparr>"
  by (simp add: rayInv_def enqueue_def toString_def rayKey_def rayStart_def mkHex_def)

text \<open>
  Claim C9 as stated fails on an unbounded board: with the goal beside an endless
  traversable ray the lookup returns no tile at the goal, and the search walks along the
  ray for ever instead of returning.
\<close>

theorem findPath_blocked_goal_unbounded_counterexample:
  "\<not> equals rayStart rayGoal \<and> rayGrid rayGoal = None
   \<and> findPath rayStart rayGoal rayGrid defaultCanTraverse = None"
proof -
  have "findPath rayStart rayGoal rayGrid defaultCanTraverse = None"
  proof (cases "findPath rayStart rayGoal rayGrid defaultCanTraverse")
    case None
    then show ?thesis .
  next
    case (Some y)
    from ray_diverges_aux [OF Some [unfolded findPath_unfold]] ray_start_inv
    show ?thesis by blast
  qed
  then show ?thesis
    by (simp add: equals_def rayStart_def rayGoal_def rayGrid_def mkHex_def)
qed

text \<open>
  Claim C9, as amended. When start equals goal, \<open>findPath\<close> returns the one-element path
  of the start for every lookup and predicate (the start cell is never checked). When
  start differs from goal and the goal cannot be entered, \<open>findPath\<close> never returns a
  path, and it returns \<^verbatim>\<open>null\<close> whenever only finitely many cells are traversable.
\<close>

theorem findPath_start_unchecked_goal_checked:
  "(equals start goal \<longrightarrow> findPath start goal getTile canTraverse = Some (Some [start]))
   \<and> (\<not> equals start goal \<and> goalBlocked goal getTile canTraverse \<longrightarrow>
        (\<forall>p. findPath start goal getTile canTraverse \<noteq> Some (Some p))
        \<and> (finite (toString ` {a. \<exists>t. getTile a = Some t \<and> canTraverse t}) \<longrightarrow>
             findPath start goal getTile canTraverse = Some None))"
proof (intro conjI impI allI)
  assume "equals start goal"
  then show "findPath start goal getTile canTraverse = Some (Some [start])"
    by (rule findPath_same_hex)
next
  fix p
  assume "\<not> equals start goal \<and> goalBlocked goal getTile canTraverse"
  then show "findPath start goal getTile canTraverse \<noteq> Some (Some p)"
    using findPath_blocked_no_path by blast
next
  assume b: "\<not> equals start goal \<and> goalBlocked goal getTile canTraverse"
    and f: "finite (toString ` {a. \<exists>t. getTile a = Some t \<and> canTraverse t})"
  from findPath_terminates [OF f] obtain res where
    r: "findPath start goal getTile canTraverse = Some res" by blast
  have "res = None"
  proof (cases res)
    case None
    then show ?thesis .
  next
    case (Some p)
    then show ?thesis using r findPath_blocked_no_path [of start goal getTile canTraverse p] b
      by simp
  qed
  then show "findPath start goal getTile canTraverse = Some None" using r by simp
qed

theorem findPath_start_unchecked_goal_checked_witness:
  "equals (mkHex 0 0 1) (mkHex 0 0 1)
   \<and> findPath (mkHex 0 0 1) (mkHex 0 0 1) (getTileHelper [] None) defaultCanTraverse
       = Some (Some [mkHex 0 0 1])
   \<and> \<not> equals (mkHex 0 0 1) (mkHex 2 0 3)
   \<and> goalBlocked (mkHex 2 0 3) (getTileHelper corridor None) defaultCanTraverse
   \<and> finite (toString ` {a. \<exists>t. getTileHelper corridor None a = Some t \<and> defaultCanTraverse t})
   \<and> findPath (mkHex 0 0 1) (mkHex 2 0 3) (getTileHelper corridor None) defaultCanTraverse
       = Some None"
proof -
  have same: "equals (mkHex 0 0 1) (mkHex 0 0 1)" by (simp add: equals_def)
  have diff: "\<not> equals (mkHex 0 0 1) (mkHex 2 0 3)" by (simp add: equals_def mkHex_def)
  have blocked: "goalBlocked (mkHex 2 0 3) (getTileHelper corridor None) defaultCanTraverse"
    by (auto simp: goalBlocked_def getTileHelper_def corridor_def equals_def mkHex_def
          plainTile_def defaultCanTraverse_def split: if_splits)
  have fin: "finite (toString ` {a. \<exists>t. getTileHelper corridor None a = Some t
                \<and> defaultCanTraverse t})"
    by (rule listed_lookup_finite)
  show ?thesis
    using findPath_start_unchecked_goal_checked
        [of "mkHex 0 0 1" "mkHex 0 0 1" "getTileHelper [] None" defaultCanTraverse]
      findPath_start_unchecked_goal_checked
        [of "mkHex 0 0 1" "mkHex 2 0 3" "getTileHelper corridor None" defaultCanTraverse]
      same diff blocked fin
    by simp
qed

subsection \<open>The layered search of a ranged unit\<close>

lemma neighbor_key: "toString a = toString b \<Longrightarrow> neighbor a d = neighbor b d"
  by (simp add: toString_def neighbor_def split: prod.splits)

lemma steps_key: "toString a = toString b \<Longrightarrow> steps gt ct a = steps gt ct b"
  using neighbor_key [of a b] by (simp add: steps_def cong: map_cong)

lemma inRange_key: "toString a = toString b \<Longrightarrow> inRange rng targets a = inRange rng targets b"
  by (simp add: inRange_def distance_def toString_def)

lemma bfsVisit_cases:
  "bfsVisit targets rng gt ct a d st =
     (if toString (neighbor a d) \<in> visited st \<or> \<not> enterable gt ct (neighbor a d) then st
      else st\<lparr>visited := insert (toString (neighbor a d)) (visited st),
              nextQueue := nextQueue st @ [neighbor a d],
              reachableAtThisDistance := reachableAtThisDistance st @
                filter (\<lambda>target. int (distance (neighbor a d) target) \<le> rng) targets\<rparr>)"
  by (simp add: bfsVisit_def Let_def enterable_def split: option.splits)

lemma filter_inRange:
  "filter (\<lambda>target. int (distance p target) \<le> rng) targets \<noteq> [] \<longleftrightarrow> inRange rng targets p"
  by (auto simp: inRange_def filter_empty_conv)

lemma bfsVisit_visited:
  "visited (bfsVisit targets rng gt ct a d st) =
     visited st \<union> (if enterable gt ct (neighbor a d) then {toString (neighbor a d)} else {})"
  by (auto simp: bfsVisit_cases)

lemma bfsVisit_layerInv:
  assumes "layerInv targets rng V0 st"
  shows "layerInv targets rng V0 (bfsVisit targets rng gt ct a d st)"
proof (cases "toString (neighbor a d) \<in> visited st \<or> \<not> enterable gt ct (neighbor a d)")
  case True
  then show ?thesis using assms by (simp add: bfsVisit_cases)
next
  case False
  then have nv: "toString (neighbor a d) \<notin> visited st" by simp
  let ?st = "st\<lparr>visited := insert (toString (neighbor a d)) (visited st),
              nextQueue := nextQueue st @ [neighbor a d],
              reachableAtThisDistance := reachableAtThisDistance st @
                filter (\<lambda>target. int (distance (neighbor a d) target) \<le> rng) targets\<rparr>"
  have eq: "bfsVisit targets rng gt ct a d st = ?st" using False by (simp add: bfsVisit_cases)
  have v0: "V0 \<subseteq> visited st"
    and nq: "toString ` set (nextQueue st) = visited st - V0"
    and rr: "reachableAtThisDistance st \<noteq> [] \<longleftrightarrow> (\<exists>nb \<in> set (nextQueue st). inRange rng targets nb)"
    using assms unfolding layerInv_def by blast+
  have a1: "V0 \<subseteq> visited ?st" using v0 by auto
  have a2: "toString ` set (nextQueue ?st) = visited ?st - V0"
    using nq nv v0 by auto
  have a3: "reachableAtThisDistance ?st \<noteq> [] \<longleftrightarrow> (\<exists>nb \<in> set (nextQueue ?st). inRange rng targets nb)"
    using rr by (auto simp: filter_inRange)
  show ?thesis unfolding eq layerInv_def using a1 a2 a3 by blast
qed

lemma fold_bfsVisit_layerInv:
  "layerInv targets rng V0 st
     \<Longrightarrow> layerInv targets rng V0 (fold (bfsVisit targets rng gt ct a) ds st)"
  by (induction ds arbitrary: st) (simp_all add: bfsVisit_layerInv)

lemma bfsLayer_layerInv:
  "layerInv targets rng V0 st \<Longrightarrow> layerInv targets rng V0 (bfsLayer targets rng gt ct queue st)"
  unfolding bfsLayer_def
  by (induction queue arbitrary: st) (simp_all add: fold_bfsVisit_layerInv)

lemma fold_bfsVisit_visited:
  "visited (fold (bfsVisit targets rng gt ct a) ds st) =
     visited st \<union> toString ` set (filter (enterable gt ct) (map (neighbor a) ds))"
  by (induction ds arbitrary: st) (auto simp: bfsVisit_visited)

lemma bfsLayer_visited:
  "visited (bfsLayer targets rng gt ct queue st) = visited st \<union> (\<Union>a \<in> set queue. steps gt ct a)"
  unfolding bfsLayer_def
  by (induction queue arbitrary: st) (auto simp: fold_bfsVisit_visited steps_def)

lemma reachKeys_Suc:
  "reachKeys gt ct start (Suc k) =
     reachKeys gt ct start k \<union> (\<Union>a \<in> reachable gt ct start k. steps gt ct a)"
  by (simp add: reachKeys_def steps_def image_Un image_UN)

lemma reachable_mono_Suc: "reachable gt ct start k \<subseteq> reachable gt ct start (Suc k)"
  by auto

lemma reachable_mono: "k \<le> m \<Longrightarrow> reachable gt ct start k \<subseteq> reachable gt ct start m"
proof (induction m)
  case 0
  then show ?case by simp
next
  case (Suc m)
  show ?case
  proof (cases "k = Suc m")
    case True
    then show ?thesis by simp
  next
    case False
    then have "k \<le> m" using Suc.prems by simp
    then have "reachable gt ct start k \<subseteq> reachable gt ct start m" by (rule Suc.IH)
    then show ?thesis using reachable_mono_Suc [of gt ct start m] by blast
  qed
qed

lemma reachKeys_witness:
  "key \<in> reachKeys gt ct start k \<Longrightarrow> \<exists>p \<in> reachable gt ct start k. toString p = key"
  by (auto simp: reachKeys_def)

lemma reachKeys_closed:
  assumes "\<forall>a. toString a \<in> reachKeys gt ct start k \<longrightarrow> steps gt ct a \<subseteq> reachKeys gt ct start k"
  shows "reachKeys gt ct start (k + j) = reachKeys gt ct start k"
proof (induction j)
  case 0
  show ?case by simp
next
  case (Suc j)
  have "(\<Union>a \<in> reachable gt ct start (k + j). steps gt ct a) \<subseteq> reachKeys gt ct start k"
  proof
    fix x
    assume "x \<in> (\<Union>a \<in> reachable gt ct start (k + j). steps gt ct a)"
    then obtain a where a: "a \<in> reachable gt ct start (k + j)" "x \<in> steps gt ct a" by blast
    then have "toString a \<in> reachKeys gt ct start (k + j)" by (simp add: reachKeys_def)
    then have "toString a \<in> reachKeys gt ct start k" using Suc.IH by simp
    then show "x \<in> reachKeys gt ct start k" using assms a(2) by blast
  qed
  then show ?case using Suc.IH by (simp add: reachKeys_Suc) blast
qed

lemma layer_step:
  assumes inv: "bfsInv gt ct start rng targets k queue vis"
  defines "st \<equiv> bfsLayer targets rng gt ct queue
                  \<lparr>visited = vis, nextQueue = [], reachableAtThisDistance = []\<rparr>"
  shows "visited st = reachKeys gt ct start (Suc k)"
    and "reachableAtThisDistance st = []
           \<Longrightarrow> bfsInv gt ct start rng targets (Suc k) (nextQueue st) (visited st)"
    and "reachableAtThisDistance st \<noteq> []
           \<Longrightarrow> \<exists>p \<in> reachable gt ct start (Suc k). inRange rng targets p"
proof -
  have V: "vis = reachKeys gt ct start k"
    and I1: "toString ` set queue \<subseteq> vis"
    and I3: "\<And>a. toString a \<in> vis \<Longrightarrow> toString a \<notin> toString ` set queue
               \<Longrightarrow> steps gt ct a \<subseteq> vis"
    and I4: "\<And>p. p \<in> reachable gt ct start k \<Longrightarrow> \<not> inRange rng targets p"
    using inv unfolding bfsInv_def by blast+
  have vs: "visited st = vis \<union> (\<Union>a \<in> set queue. steps gt ct a)"
    unfolding st_def by (simp add: bfsLayer_visited)
  have "layerInv targets rng vis \<lparr>visited = vis, nextQueue = [], reachableAtThisDistance = []\<rparr>"
    by (simp add: layerInv_def)
  then have li: "layerInv targets rng vis st" unfolding st_def by (rule bfsLayer_layerInv)
  have nq: "toString ` set (nextQueue st) = visited st - vis"
    and rr: "reachableAtThisDistance st \<noteq> [] \<longleftrightarrow> (\<exists>nb \<in> set (nextQueue st). inRange rng targets nb)"
    using li unfolding layerInv_def by blast+
  have qsteps: "steps gt ct a \<subseteq> visited st" if "toString a \<in> toString ` set queue" for a
  proof -
    from that obtain a' where "a' \<in> set queue" "toString a = toString a'" by blast
    then show ?thesis using steps_key [of a a' gt ct] vs by blast
  qed
  have allsteps: "steps gt ct a \<subseteq> visited st" if "toString a \<in> vis" for a
  proof (cases "toString a \<in> toString ` set queue")
    case True
    then show ?thesis by (rule qsteps)
  next
    case False
    then show ?thesis using I3 [OF that False] vs by blast
  qed
  have sub1: "(\<Union>a \<in> reachable gt ct start k. steps gt ct a) \<subseteq> visited st"
  proof
    fix x
    assume "x \<in> (\<Union>a \<in> reachable gt ct start k. steps gt ct a)"
    then obtain a where a: "a \<in> reachable gt ct start k" "x \<in> steps gt ct a" by blast
    then have "toString a \<in> vis" unfolding V by (simp add: reachKeys_def)
    then show "x \<in> visited st" using allsteps a(2) by blast
  qed
  have sub2: "(\<Union>a \<in> set queue. steps gt ct a) \<subseteq> reachKeys gt ct start (Suc k)"
  proof
    fix x
    assume "x \<in> (\<Union>a \<in> set queue. steps gt ct a)"
    then obtain a where a: "a \<in> set queue" "x \<in> steps gt ct a" by blast
    then have "toString a \<in> reachKeys gt ct start k" using I1 V by blast
    then obtain p where p: "p \<in> reachable gt ct start k" "toString p = toString a"
      using reachKeys_witness by blast
    from p(2) have "steps gt ct p = steps gt ct a" by (rule steps_key)
    then show "x \<in> reachKeys gt ct start (Suc k)"
      using p(1) a(2) unfolding reachKeys_Suc by blast
  qed
  show vk: "visited st = reachKeys gt ct start (Suc k)"
  proof
    show "visited st \<subseteq> reachKeys gt ct start (Suc k)"
      using sub2 unfolding vs V reachKeys_Suc by blast
    show "reachKeys gt ct start (Suc k) \<subseteq> visited st"
      using sub1 vs unfolding reachKeys_Suc V by blast
  qed
  show "bfsInv gt ct start rng targets (Suc k) (nextQueue st) (visited st)"
    if empty: "reachableAtThisDistance st = []"
    unfolding bfsInv_def
  proof (intro conjI allI impI ballI)
    show "visited st = reachKeys gt ct start (Suc k)" by (rule vk)
    show "toString ` set (nextQueue st) \<subseteq> visited st" using nq by blast
  next
    fix a
    assume "toString a \<in> visited st \<and> toString a \<notin> toString ` set (nextQueue st)"
    then have "toString a \<in> vis" using nq by blast
    then show "steps gt ct a \<subseteq> visited st" by (rule allsteps)
  next
    fix p
    assume p: "p \<in> reachable gt ct start (Suc k)"
    then have pk: "toString p \<in> visited st" unfolding vk by (simp add: reachKeys_def)
    show "\<not> inRange rng targets p"
    proof (cases "toString p \<in> vis")
      case True
      then obtain p' where "p' \<in> reachable gt ct start k" "toString p' = toString p"
        unfolding V using reachKeys_witness by blast
      then show ?thesis using I4 inRange_key [of p' p rng targets] by blast
    next
      case False
      then have "toString p \<in> toString ` set (nextQueue st)" using pk nq by blast
      then obtain nb where nb: "nb \<in> set (nextQueue st)" "toString p = toString nb" by blast
      have "\<not> inRange rng targets nb" using rr empty nb(1) by blast
      then show ?thesis using inRange_key [OF nb(2), of rng targets] by simp
    qed
  qed
  show "\<exists>p \<in> reachable gt ct start (Suc k). inRange rng targets p"
    if "reachableAtThisDistance st \<noteq> []"
  proof -
    from that rr obtain nb where nb: "nb \<in> set (nextQueue st)" "inRange rng targets nb" by blast
    then have "toString nb \<in> reachKeys gt ct start (Suc k)" using nq vk by blast
    then obtain p where p: "p \<in> reachable gt ct start (Suc k)" "toString p = toString nb"
      using reachKeys_witness by blast
    then show ?thesis using nb(2) inRange_key [OF p(2), of rng targets] by blast
  qed
qed

lemma searchOutcome_later:
  "searchOutcome gt ct start rng targets (Suc n) R \<Longrightarrow> searchOutcome gt ct start rng targets n R"
  unfolding searchOutcome_def by (meson Suc_lessD)

lemma outcome_stop:
  assumes inv: "bfsInv gt ct start rng targets n queue vis"
    and n: "n \<le> 20"
    and stop: "queue = [] \<or> n = 20"
  shows "searchOutcome gt ct start rng targets n
           (\<lparr>rangedMovementDistance = \<infinity>, rangedCanReach = False, reachableTargets = []\<rparr>, n)"
proof -
  have V: "vis = reachKeys gt ct start n"
    and I3: "\<And>a. toString a \<in> vis \<Longrightarrow> toString a \<notin> toString ` set queue
               \<Longrightarrow> steps gt ct a \<subseteq> vis"
    and I4: "\<And>p. p \<in> reachable gt ct start n \<Longrightarrow> \<not> inRange rng targets p"
    using inv unfolding bfsInv_def by blast+
  have keys: "reachKeys gt ct start 20 = reachKeys gt ct start n"
  proof (cases "n = 20")
    case True
    then show ?thesis by simp
  next
    case False
    then have q: "queue = []" using stop by simp
    have "\<forall>a. toString a \<in> reachKeys gt ct start n \<longrightarrow> steps gt ct a \<subseteq> reachKeys gt ct start n"
      using I3 q unfolding V by simp
    from reachKeys_closed [OF this, of "20 - n"] n show ?thesis by simp
  qed
  have none: "\<not> (\<exists>p \<in> reachable gt ct start 20. inRange rng targets p)"
  proof
    assume "\<exists>p \<in> reachable gt ct start 20. inRange rng targets p"
    then obtain p where p: "p \<in> reachable gt ct start 20" "inRange rng targets p" by blast
    then have "toString p \<in> reachKeys gt ct start n" using keys by (auto simp: reachKeys_def)
    then obtain p' where p': "p' \<in> reachable gt ct start n" "toString p' = toString p"
      using reachKeys_witness by blast
    then show False using I4 p(2) inRange_key [OF p'(2), of rng targets] by blast
  qed
  show ?thesis
    unfolding searchOutcome_def using none keys n by simp
qed

lemma outcome_found:
  assumes "\<exists>p \<in> reachable gt ct start (Suc n). inRange rng targets p"
    and n: "n < 20"
  shows "searchOutcome gt ct start rng targets n
           (\<lparr>rangedMovementDistance = enat (n + 1), rangedCanReach = True,
             reachableTargets = ts\<rparr>, n)"
proof -
  have "reachable gt ct start (Suc n) \<subseteq> reachable gt ct start 20"
    using n by (intro reachable_mono) simp
  then have "\<exists>p \<in> reachable gt ct start 20. inRange rng targets p" using assms(1) by blast
  then show ?thesis unfolding searchOutcome_def using n by simp
qed

lemma bfsLoop_outcome:
  assumes "bfsInv gt ct start rng targets n queue vis" and "n \<le> 20"
  shows "searchOutcome gt ct start rng targets n (bfsLoop targets rng gt ct n queue vis)"
  using assms
proof (induction targets rng gt ct n queue vis rule: bfsLoop.induct)
  case (1 targets rng gt ct n queue vis)
  let ?st = "bfsLayer targets rng gt ct queue
               \<lparr>visited = vis, nextQueue = [], reachableAtThisDistance = []\<rparr>"
  show ?case
  proof (cases "queue \<noteq> [] \<and> n < 20")
    case False
    then have stop: "queue = [] \<or> n = 20" using "1.prems"(2) by auto
    have "bfsLoop targets rng gt ct n queue vis
        = (\<lparr>rangedMovementDistance = \<infinity>, rangedCanReach = False, reachableTargets = []\<rparr>, n)"
      using False by (subst bfsLoop.simps) auto
    then show ?thesis using outcome_stop [OF "1.prems" stop] by simp
  next
    case go: True
    show ?thesis
    proof (cases "reachableAtThisDistance ?st \<noteq> []")
      case True
      have eq: "bfsLoop targets rng gt ct n queue vis
          = (\<lparr>rangedMovementDistance = enat (n + 1), rangedCanReach = True,
              reachableTargets = uniqueTargets (reachableAtThisDistance ?st)\<rparr>, n)"
        using go True by (subst bfsLoop.simps) (simp add: Let_def)
      have "\<exists>p \<in> reachable gt ct start (Suc n). inRange rng targets p"
        using layer_step(3) [OF "1.prems"(1)] True by simp
      then show ?thesis unfolding eq using go by (intro outcome_found) simp_all
    next
      case False
      then have empty: "reachableAtThisDistance ?st = []" by simp
      have eq: "bfsLoop targets rng gt ct n queue vis
          = bfsLoop targets rng gt ct (n + 1) (nextQueue ?st) (visited ?st)"
        using go False by (subst bfsLoop.simps) (simp add: Let_def)
      have inv': "bfsInv gt ct start rng targets (n + 1) (nextQueue ?st) (visited ?st)"
        using layer_step(2) [OF "1.prems"(1)] empty by simp
      have "searchOutcome gt ct start rng targets (n + 1)
          (bfsLoop targets rng gt ct (n + 1) (nextQueue ?st) (visited ?st))"
        using "1.IH" [OF go refl False inv'] go by simp
      then show ?thesis unfolding eq using searchOutcome_later by simp
    qed
  qed
qed

lemma bfs_start_inv:
  assumes "\<not> inRange rng targets start"
  shows "bfsInv gt ct start rng targets 0 [start] {toString start}"
  unfolding bfsInv_def using assms by (simp add: reachKeys_def)

lemma no_immediate:
  "filter (\<lambda>target. int (distance start target) \<le> rng) targets = []
     \<longleftrightarrow> \<not> inRange rng targets start"
  using filter_inRange [of start rng targets] by blast

text \<open>
  Claim C4, as amended. For a non-empty target list with no target within range of the
  start, \<open>calculateRangedMovementDistance\<close> returns the unreachable result (\<open>canReach\<close>
  false, infinite movement distance, no reachable targets) exactly when no position
  reachable within 20 steps is within range of a target. The unreachable result comes
  after at most 20 layers, and when it comes after fewer the frontier is exhausted: no
  position is reachable in 20 steps that was not reached in the completed layers. Every
  successful result has a movement distance between 1 and 20.
\<close>

theorem ranged_search_outcome:
  assumes "targets \<noteq> []"
    and "\<not> inRange rng targets start"
  shows "(\<not> rangedCanReach (calculateRangedMovementDistance start targets rng getTile canTraverse)
            \<longleftrightarrow> \<not> (\<exists>p \<in> reachable getTile canTraverse start 20. inRange rng targets p))
       \<and> (\<not> rangedCanReach (calculateRangedMovementDistance start targets rng getTile canTraverse)
            \<longrightarrow> rangedMovementDistance
                   (calculateRangedMovementDistance start targets rng getTile canTraverse) = \<infinity>
              \<and> reachableTargets
                   (calculateRangedMovementDistance start targets rng getTile canTraverse) = []
              \<and> completedLayers start targets rng getTile canTraverse \<le> 20
              \<and> reachKeys getTile canTraverse start 20
                  = reachKeys getTile canTraverse start
                      (completedLayers start targets rng getTile canTraverse))
       \<and> (rangedCanReach (calculateRangedMovementDistance start targets rng getTile canTraverse)
            \<longrightarrow> (\<exists>m. rangedMovementDistance
                        (calculateRangedMovementDistance start targets rng getTile canTraverse)
                      = enat m \<and> 1 \<le> m \<and> m \<le> 20))"
proof -
  let ?R = "bfsLoop targets rng getTile canTraverse 0 [start] {toString start}"
  have eq: "calculateRangedMovementDistance start targets rng getTile canTraverse = fst ?R"
    using assms by (simp add: calculateRangedMovementDistance_def Let_def no_immediate)
  have "searchOutcome getTile canTraverse start rng targets 0 ?R"
    by (rule bfsLoop_outcome [OF bfs_start_inv [OF assms(2)]]) simp
  then show ?thesis
    unfolding eq completedLayers_def searchOutcome_def
    by (metis Suc_leI One_nat_def)
qed

text \<open>
  Claim C4 as stated fails in its middle part: on a board where the start has no
  neighbour to enter, the unreachable result comes after one layer, not after 20.
\<close>

theorem ranged_search_stops_early_counterexample:
  "[mkHex 5 0 2] \<noteq> [] \<and> \<not> inRange 1 [mkHex 5 0 2] (mkHex 0 0 1)
   \<and> \<not> rangedCanReach
         (calculateRangedMovementDistance (mkHex 0 0 1) [mkHex 5 0 2] 1 noTiles defaultCanTraverse)
   \<and> completedLayers (mkHex 0 0 1) [mkHex 5 0 2] 1 noTiles defaultCanTraverse = 1"
  by code_simp

theorem ranged_search_outcome_witness:
  "[mkHex 5 0 2] \<noteq> [] \<and> \<not> inRange 1 [mkHex 5 0 2] (mkHex 0 0 1)
   \<and> \<not> rangedCanReach
         (calculateRangedMovementDistance (mkHex 0 0 1) [mkHex 5 0 2] 1 noTiles defaultCanTraverse)
   \<and> \<not> (\<exists>p \<in> reachable noTiles defaultCanTraverse (mkHex 0 0 1) 20. inRange 1 [mkHex 5 0 2] p)
   \<and> rangedMovementDistance
         (calculateRangedMovementDistance (mkHex 0 0 1) [mkHex 5 0 2] 1 noTiles defaultCanTraverse)
       = \<infinity>
   \<and> \<not> inRange 2 [mkHex 3 0 2] (mkHex 0 0 1)
   \<and> rangedCanReach
         (calculateRangedMovementDistance (mkHex 0 0 1) [mkHex 3 0 2] 2 (discGrid 4)
            defaultCanTraverse)
   \<and> (\<exists>p \<in> reachable (discGrid 4) defaultCanTraverse (mkHex 0 0 1) 20. inRange 2 [mkHex 3 0 2] p)
   \<and> (\<exists>m. rangedMovementDistance
         (calculateRangedMovementDistance (mkHex 0 0 1) [mkHex 3 0 2] 2 (discGrid 4)
            defaultCanTraverse) = enat m \<and> 1 \<le> m \<and> m \<le> 20)"
proof -
  have ne: "[mkHex 5 0 2] \<noteq> []" "[mkHex 3 0 2] \<noteq> []" by simp_all
  have far: "\<not> inRange 1 [mkHex 5 0 2] (mkHex 0 0 1)" "\<not> inRange 2 [mkHex 3 0 2] (mkHex 0 0 1)"
    by (simp_all add: inRange_def distance_def mkHex_def)
  have none: "\<not> rangedCanReach
         (calculateRangedMovementDistance (mkHex 0 0 1) [mkHex 5 0 2] 1 noTiles defaultCanTraverse)"
    by code_simp
  have some: "rangedCanReach
         (calculateRangedMovementDistance (mkHex 0 0 1) [mkHex 3 0 2] 2 (discGrid 4)
            defaultCanTraverse)"
    by code_simp
  show ?thesis
    using ranged_search_outcome [OF ne(1) far(1), of noTiles defaultCanTraverse]
      ranged_search_outcome [OF ne(2) far(2), of "discGrid 4" defaultCanTraverse]
      ne far none some
    by simp
qed


subsection \<open>The transparency of the caches\<close>

lemma calculateEffectiveDistance_disabled:
  "calculateEffectiveDistance start goal rng gt ct False cache =
     map_option (\<lambda>v. (v, cache)) (computeDistance start goal rng gt ct)"
  by (simp add: computeDistance_def calculateEffectiveDistance_def Let_def
        split: option.splits)

lemma memo_get_hit: "fst (memo_get k c) = Some v \<Longrightarrow> (k, v) \<in> set (entries c)"
  by (auto simp: memo_get_def split: option.splits dest: map_of_SomeD)

lemma memo_get_entries: "set (entries (snd (memo_get k c))) \<subseteq> set (entries c)"
  by (auto simp: memo_get_def split: option.splits dest: map_of_SomeD)

lemma set_tl_subset: "set (tl xs) \<subseteq> set xs"
  by (cases xs) auto

lemma memo_set_entries: "set (entries (memo_set k v c)) \<subseteq> insert (k, v) (set (entries c))"
proof -
  let ?es = "filter (\<lambda>e. fst e \<noteq> k) (entries c) @ [(k, v)]"
  have a: "set ?es \<subseteq> insert (k, v) (set (entries c))" by auto
  have b: "set (tl ?es) \<subseteq> insert (k, v) (set (entries c))"
    using set_tl_subset [of ?es] a by blast
  show ?thesis
    using a b by (simp add: memo_set_def Let_def)
qed

lemma getEffectiveDistance_hit:
  "fst (getEffectiveDistance key cache) = Some v
     \<Longrightarrow> (key, v) \<in> set (entries (effectiveDistanceCache cache))"
  using memo_get_hit [of key "effectiveDistanceCache cache" v]
  by (simp add: getEffectiveDistance_def split: prod.splits)

lemma getEffectiveDistance_ok:
  "entriesOk ok cache \<Longrightarrow> entriesOk ok (snd (getEffectiveDistance key cache))"
  using memo_get_entries [of key "effectiveDistanceCache cache"]
  by (auto simp: entriesOk_def getEffectiveDistance_def split: prod.splits)

lemma setEffectiveDistance_ok:
  "entriesOk ok cache \<Longrightarrow> ok key v \<Longrightarrow> entriesOk ok (setEffectiveDistance key v cache)"
  using memo_set_entries [of key v "effectiveDistanceCache cache"]
  by (auto simp: entriesOk_def setEffectiveDistance_def)

lemma calculateEffectiveDistance_hit:
  assumes "fst (getEffectiveDistance (generatePathCacheKey (getId start) (getId goal) rng) cache)
             = Some v"
  shows "calculateEffectiveDistance start goal rng gt ct True cache =
           Some (v, snd (getEffectiveDistance
                           (generatePathCacheKey (getId start) (getId goal) rng) cache))"
  using assms by (simp add: calculateEffectiveDistance_def Let_def)

lemma calculateEffectiveDistance_miss:
  assumes "fst (getEffectiveDistance (generatePathCacheKey (getId start) (getId goal) rng) cache)
             = None"
  shows "calculateEffectiveDistance start goal rng gt ct True cache =
           map_option
             (\<lambda>v. (v, setEffectiveDistance (generatePathCacheKey (getId start) (getId goal) rng) v
                         (snd (getEffectiveDistance
                                 (generatePathCacheKey (getId start) (getId goal) rng) cache))))
             (computeDistance start goal rng gt ct)"
  using assms
  by (simp add: calculateEffectiveDistance_def computeDistance_def Let_def
        split: option.splits)

lemma calculateEffectiveDistance_cached:
  assumes coh: "entriesOk ok cache"
    and A: "\<And>v. ok (generatePathCacheKey (getId start) (getId goal) rng) v
                   \<longleftrightarrow> computeDistance start goal rng gt ct = Some v"
  shows "map_option fst (calculateEffectiveDistance start goal rng gt ct True cache)
           = computeDistance start goal rng gt ct"
    and "calculateEffectiveDistance start goal rng gt ct True cache = Some (w, c')
           \<Longrightarrow> entriesOk ok c'"
proof -
  let ?key = "generatePathCacheKey (getId start) (getId goal) rng"
  let ?c1 = "snd (getEffectiveDistance ?key cache)"
  have c1: "entriesOk ok ?c1" using coh by (rule getEffectiveDistance_ok)
  show "map_option fst (calculateEffectiveDistance start goal rng gt ct True cache)
           = computeDistance start goal rng gt ct"
  proof (cases "fst (getEffectiveDistance ?key cache)")
    case None
    then show ?thesis
      by (simp add: calculateEffectiveDistance_miss option.map_comp comp_def option.map_ident)
  next
    case (Some v)
    then have "(?key, v) \<in> set (entries (effectiveDistanceCache cache))"
      by (rule getEffectiveDistance_hit)
    then have "ok ?key v" using coh unfolding entriesOk_def by force
    then have "computeDistance start goal rng gt ct = Some v" using A by simp
    then show ?thesis using Some by (simp add: calculateEffectiveDistance_hit)
  qed
  show "entriesOk ok c'"
    if r: "calculateEffectiveDistance start goal rng gt ct True cache = Some (w, c')"
  proof (cases "fst (getEffectiveDistance ?key cache)")
    case None
    from r have "map_option
             (\<lambda>v. (v, setEffectiveDistance ?key v ?c1)) (computeDistance start goal rng gt ct)
              = Some (w, c')"
      by (simp only: calculateEffectiveDistance_miss [OF None])
    then have cd: "computeDistance start goal rng gt ct = Some w"
      and c': "c' = setEffectiveDistance ?key w ?c1"
      by auto
    from cd have "ok ?key w" using A by simp
    then show ?thesis unfolding c' using c1 by (simp add: setEffectiveDistance_ok)
  next
    case (Some v)
    then have "c' = ?c1" using r by (simp add: calculateEffectiveDistance_hit)
    then show ?thesis using c1 by simp
  qed
qed

lemma meleeLoop_disabled_cache:
  "meleeLoop src tts rng gt ct False rest closest cache = Some (res, c') \<Longrightarrow> c' = cache"
proof (induction rest arbitrary: closest)
  case Nil
  then show ?case by simp
next
  case (Cons t rest)
  then show ?case
    by (auto simp: calculateEffectiveDistance_disabled split: option.splits if_splits)
qed

lemma meleeLoop_disabled_result:
  "map_option fst (meleeLoop src tts rng gt ct False rest closest c1)
     = map_option fst (meleeLoop src tts rng gt ct False rest closest c2)"
proof (induction rest arbitrary: closest)
  case Nil
  show ?case by simp
next
  case (Cons t rest)
  show ?case
  proof (cases "computeDistance (hex src) (hex t) rng gt (canTraverseToTarget ct t)")
    case None
    then show ?thesis by (simp add: calculateEffectiveDistance_disabled)
  next
    case (Some v)
    show ?thesis
    proof (cases "canReach v")
      case False
      then show ?thesis using Some Cons.IH [of closest]
        by (simp add: calculateEffectiveDistance_disabled)
    next
      case True
      show ?thesis
      proof (cases "meleeStep src tts t (movementDistance v) closest")
        case None
        then show ?thesis using Some True by (simp add: calculateEffectiveDistance_disabled)
      next
        case (Some closest')
        then show ?thesis using \<open>computeDistance _ _ _ _ _ = Some v\<close> True Cons.IH [of closest']
          by (simp add: calculateEffectiveDistance_disabled)
      qed
    qed
  qed
qed

lemma meleeLoop_cached:
  assumes coh: "entriesOk ok cache"
    and A: "\<And>t v. t \<in> set rest \<Longrightarrow>
              ok (generatePathCacheKey (getId (hex src)) (getId (hex t)) rng) v
                \<longleftrightarrow> computeDistance (hex src) (hex t) rng gt (canTraverseToTarget ct t) = Some v"
  shows "map_option fst (meleeLoop src tts rng gt ct True rest closest cache)
           = map_option fst (meleeLoop src tts rng gt ct False rest closest cache)
         \<and> (\<forall>res c'. meleeLoop src tts rng gt ct True rest closest cache = Some (res, c')
               \<longrightarrow> entriesOk ok c')"
  using assms
proof (induction rest arbitrary: closest cache)
  case Nil
  then show ?case by simp
next
  case (Cons t rest)
  let ?cd = "computeDistance (hex src) (hex t) rng gt (canTraverseToTarget ct t)"
  have At: "\<And>v. ok (generatePathCacheKey (getId (hex src)) (getId (hex t)) rng) v
                \<longleftrightarrow> ?cd = Some v"
    using Cons.prems(2) [of t] by simp
  have Arest: "\<And>t' v. t' \<in> set rest \<Longrightarrow>
              ok (generatePathCacheKey (getId (hex src)) (getId (hex t')) rng) v
                \<longleftrightarrow> computeDistance (hex src) (hex t') rng gt (canTraverseToTarget ct t') = Some v"
    using Cons.prems(2) by simp
  have fstE: "map_option fst
                (calculateEffectiveDistance (hex src) (hex t) rng gt (canTraverseToTarget ct t)
                   True cache) = ?cd"
    using Cons.prems(1) At by (rule calculateEffectiveDistance_cached(1))
  show ?case
  proof (cases ?cd)
    case None
    then have "calculateEffectiveDistance (hex src) (hex t) rng gt (canTraverseToTarget ct t)
                   True cache = None"
      using fstE by simp
    then show ?thesis using None by (simp add: calculateEffectiveDistance_disabled)
  next
    case (Some v)
    then obtain c1 where
      e: "calculateEffectiveDistance (hex src) (hex t) rng gt (canTraverseToTarget ct t)
            True cache = Some (v, c1)"
      using fstE by auto
    have c1: "entriesOk ok c1"
      using Cons.prems(1) At e by (rule calculateEffectiveDistance_cached(2))
    have d: "calculateEffectiveDistance (hex src) (hex t) rng gt (canTraverseToTarget ct t)
               False cache = Some (v, cache)"
      using Some by (simp add: calculateEffectiveDistance_disabled)
    have ih: "map_option fst (meleeLoop src tts rng gt ct True rest cl c1)
           = map_option fst (meleeLoop src tts rng gt ct False rest cl cache)
         \<and> (\<forall>res c'. meleeLoop src tts rng gt ct True rest cl c1 = Some (res, c')
               \<longrightarrow> entriesOk ok c')" for cl
      using Cons.IH [OF c1 Arest, of cl]
        meleeLoop_disabled_result [of src tts rng gt ct rest cl c1 cache]
      by simp
    show ?thesis
    proof (cases "canReach v")
      case False
      then show ?thesis using e d ih [of closest] by simp
    next
      case True
      show ?thesis
      proof (cases "meleeStep src tts t (movementDistance v) closest")
        case None
        then show ?thesis using e d True by simp
      next
        case (Some closest')
        then show ?thesis using e d True ih [of closest'] by simp
      qed
    qed
  qed
qed

lemma map_option_fst_Some: "Some a = map_option fst x \<Longrightarrow> \<exists>b. x = Some (a, b)"
  by (cases x) auto

lemma findClosestTarget_ranged:
  assumes "tts = [] \<or> rng > 1"
  shows "\<exists>res. \<forall>ce (cache :: 'k PathfindingCache).
           findClosestTarget src tts rng gt ct ce cache = Some (res, cache)"
proof (cases "tts = []")
  case True
  then show ?thesis by (simp add: findClosestTarget_def)
next
  case False
  then have r: "rng > 1" using assms by simp
  let ?rr = "calculateRangedMovementDistance (hex src) (map hex tts) rng gt ct"
  let ?cands = "filter (\<lambda>tile. \<exists>reachableHex \<in> set (reachableTargets ?rr).
                                 equals reachableHex (hex tile)) tts"
  show ?thesis
  proof (cases "\<not> rangedCanReach ?rr \<or> reachableTargets ?rr = []")
    case True
    then show ?thesis using False r by (simp add: findClosestTarget_def Let_def)
  next
    case nr: False
    show ?thesis
    proof (cases ?cands)
      case Nil
      then show ?thesis using False r nr by (simp add: findClosestTarget_def Let_def)
    next
      case (Cons first others)
      then show ?thesis using False r nr by (simp add: findClosestTarget_def Let_def)
    qed
  qed
qed

lemma findClosestTarget_melee:
  "tts \<noteq> [] \<Longrightarrow> \<not> rng > 1 \<Longrightarrow>
     findClosestTarget src tts rng gt ct ce cache = meleeLoop src tts rng gt ct ce tts None cache"
  by (simp add: findClosestTarget_def)

lemma findClosestTarget_disabled_result:
  "map_option fst (findClosestTarget src tts rng gt ct False (c1 :: 'k PathfindingCache))
     = map_option fst (findClosestTarget src tts rng gt ct False (c2 :: 'k PathfindingCache))"
proof (cases "tts = [] \<or> rng > 1")
  case True
  then obtain res where "\<forall>ce (cache :: 'k PathfindingCache).
           findClosestTarget src tts rng gt ct ce cache = Some (res, cache)"
    using findClosestTarget_ranged [of tts rng src gt ct] by blast
  then show ?thesis by simp
next
  case False
  then show ?thesis
    using meleeLoop_disabled_result [of src tts rng gt ct tts None c1 c2]
    by (simp add: findClosestTarget_melee)
qed

lemma findClosestTarget_cached:
  assumes coh: "entriesOk ok (cache :: 'k PathfindingCache)"
    and A: "\<And>t v. t \<in> set tts \<Longrightarrow>
              ok (generatePathCacheKey (getId (hex src)) (getId (hex t)) rng) v
                \<longleftrightarrow> computeDistance (hex src) (hex t) rng gt (canTraverseToTarget ct t) = Some v"
  shows "map_option fst (findClosestTarget src tts rng gt ct True cache)
           = map_option fst (findClosestTarget src tts rng gt ct False cache)
         \<and> (\<forall>res c'. findClosestTarget src tts rng gt ct True cache = Some (res, c')
               \<longrightarrow> entriesOk ok c')"
proof (cases "tts = [] \<or> rng > 1")
  case True
  then obtain res where "\<forall>ce (cache :: 'k PathfindingCache).
           findClosestTarget src tts rng gt ct ce cache = Some (res, cache)"
    using findClosestTarget_ranged [of tts rng src gt ct] by blast
  then show ?thesis using coh by simp
next
  case False
  then show ?thesis
    using meleeLoop_cached [of ok cache tts src rng gt ct tts None, OF coh A]
    by (simp add: findClosestTarget_melee)
qed

lemma closestEnemyLoop_disabled_result:
  "map_option fst (closestEnemyLoop enemies ranges gt False rest result
                     (c1 :: 'k PathfindingCache))
     = map_option fst (closestEnemyLoop enemies ranges gt False rest result
                         (c2 :: 'k PathfindingCache))"
proof (induction rest arbitrary: result c1 c2)
  case Nil
  show ?case by simp
next
  case (Cons a rest)
  let ?f = "\<lambda>c. findClosestTarget a enemies (characterRange ranges a) gt defaultCanTraverse
                    False c"
  have eq: "map_option fst (?f c1) = map_option fst (?f c2)"
    by (rule findClosestTarget_disabled_result)
  show ?case
  proof (cases "?f c1")
    case None
    then have "?f c2 = None" using eq by simp
    then show ?thesis using None by simp
  next
    case (Some p)
    obtain res c1' where p: "p = (res, c1')" by (cases p)
    then obtain c2' where s2: "?f c2 = Some (res, c2')"
      using eq Some map_option_fst_Some [of res "?f c2"] by auto
    show ?thesis using Some p s2 Cons.IH by simp
  qed
qed

lemma closestEnemyLoop_cached:
  assumes coh: "entriesOk ok cache"
    and A: "\<And>a t v. a \<in> set rest \<Longrightarrow> t \<in> set enemies \<Longrightarrow>
              ok (generatePathCacheKey (getId (hex a)) (getId (hex t)) (characterRange ranges a)) v
                \<longleftrightarrow> computeDistance (hex a) (hex t) (characterRange ranges a) gt
                       (canTraverseToTarget defaultCanTraverse t) = Some v"
  shows "map_option fst (closestEnemyLoop enemies ranges gt True rest result cache)
           = map_option fst (closestEnemyLoop enemies ranges gt False rest result cache)
         \<and> (\<forall>res c'. closestEnemyLoop enemies ranges gt True rest result cache = Some (res, c')
               \<longrightarrow> entriesOk ok c')"
  using assms
proof (induction rest arbitrary: result cache)
  case Nil
  then show ?case by simp
next
  case (Cons a rest)
  let ?f = "\<lambda>ce. findClosestTarget a enemies (characterRange ranges a) gt defaultCanTraverse
                    ce cache"
  have Aa: "\<And>t v. t \<in> set enemies \<Longrightarrow>
              ok (generatePathCacheKey (getId (hex a)) (getId (hex t)) (characterRange ranges a)) v
                \<longleftrightarrow> computeDistance (hex a) (hex t) (characterRange ranges a) gt
                       (canTraverseToTarget defaultCanTraverse t) = Some v"
    using Cons.prems(2) [of a] by simp
  have Arest: "\<And>a' t v. a' \<in> set rest \<Longrightarrow> t \<in> set enemies \<Longrightarrow>
              ok (generatePathCacheKey (getId (hex a')) (getId (hex t)) (characterRange ranges a')) v
                \<longleftrightarrow> computeDistance (hex a') (hex t) (characterRange ranges a') gt
                       (canTraverseToTarget defaultCanTraverse t) = Some v"
    using Cons.prems(2) by simp
  have fc: "map_option fst (?f True) = map_option fst (?f False)
         \<and> (\<forall>res c'. ?f True = Some (res, c') \<longrightarrow> entriesOk ok c')"
    using Cons.prems(1) Aa by (rule findClosestTarget_cached)
  show ?case
  proof (cases "?f True")
    case None
    then have "?f False = None" using fc by simp
    then show ?thesis using None by simp
  next
    case (Some p)
    obtain res c1 where p: "p = (res, c1)" by (cases p)
    then obtain c2 where s2: "?f False = Some (res, c2)"
      using fc Some map_option_fst_Some [of res "?f False"] by auto
    have c1: "entriesOk ok c1" using fc Some p by simp
    have "map_option fst (closestEnemyLoop enemies ranges gt True rest r c1)
           = map_option fst (closestEnemyLoop enemies ranges gt False rest r c2)
         \<and> (\<forall>res c'. closestEnemyLoop enemies ranges gt True rest r c1 = Some (res, c')
               \<longrightarrow> entriesOk ok c')" for r
      using Cons.IH [OF c1 Arest, of r]
        closestEnemyLoop_disabled_result [of enemies ranges gt rest r c1 c2]
      by simp
    then show ?thesis using Some p s2 by simp
  qed
qed

lemma closestAllyLoop_disabled_result:
  "map_option fst (closestAllyLoop allies ranges gt False rest result
                     (c1 :: 'k PathfindingCache))
     = map_option fst (closestAllyLoop allies ranges gt False rest result
                         (c2 :: 'k PathfindingCache))"
proof (induction rest arbitrary: result c1 c2)
  case Nil
  show ?case by simp
next
  case (Cons a rest)
  let ?f = "\<lambda>c. findClosestTarget a allies (characterRange ranges a) gt defaultCanTraverse
                    False c"
  have eq: "map_option fst (?f c1) = map_option fst (?f c2)"
    by (rule findClosestTarget_disabled_result)
  show ?case
  proof (cases "?f c1")
    case None
    then have "?f c2 = None" using eq by simp
    then show ?thesis using None by simp
  next
    case (Some p)
    obtain res c1' where p: "p = (res, c1')" by (cases p)
    then obtain c2' where s2: "?f c2 = Some (res, c2')"
      using eq Some map_option_fst_Some [of res "?f c2"] by auto
    show ?thesis using Some p s2 Cons.IH by simp
  qed
qed

lemma closestAllyLoop_cached:
  assumes coh: "entriesOk ok cache"
    and A: "\<And>a t v. a \<in> set rest \<Longrightarrow> t \<in> set allies \<Longrightarrow>
              ok (generatePathCacheKey (getId (hex a)) (getId (hex t)) (characterRange ranges a)) v
                \<longleftrightarrow> computeDistance (hex a) (hex t) (characterRange ranges a) gt
                       (canTraverseToTarget defaultCanTraverse t) = Some v"
  shows "map_option fst (closestAllyLoop allies ranges gt True rest result cache)
           = map_option fst (closestAllyLoop allies ranges gt False rest result cache)
         \<and> (\<forall>res c'. closestAllyLoop allies ranges gt True rest result cache = Some (res, c')
               \<longrightarrow> entriesOk ok c')"
  using assms
proof (induction rest arbitrary: result cache)
  case Nil
  then show ?case by simp
next
  case (Cons a rest)
  let ?f = "\<lambda>ce. findClosestTarget a allies (characterRange ranges a) gt defaultCanTraverse
                    ce cache"
  have Aa: "\<And>t v. t \<in> set allies \<Longrightarrow>
              ok (generatePathCacheKey (getId (hex a)) (getId (hex t)) (characterRange ranges a)) v
                \<longleftrightarrow> computeDistance (hex a) (hex t) (characterRange ranges a) gt
                       (canTraverseToTarget defaultCanTraverse t) = Some v"
    using Cons.prems(2) [of a] by simp
  have Arest: "\<And>a' t v. a' \<in> set rest \<Longrightarrow> t \<in> set allies \<Longrightarrow>
              ok (generatePathCacheKey (getId (hex a')) (getId (hex t)) (characterRange ranges a')) v
                \<longleftrightarrow> computeDistance (hex a') (hex t) (characterRange ranges a') gt
                       (canTraverseToTarget defaultCanTraverse t) = Some v"
    using Cons.prems(2) by simp
  have fc: "map_option fst (?f True) = map_option fst (?f False)
         \<and> (\<forall>res c'. ?f True = Some (res, c') \<longrightarrow> entriesOk ok c')"
    using Cons.prems(1) Aa by (rule findClosestTarget_cached)
  show ?case
  proof (cases "?f True")
    case None
    then have "?f False = None" using fc by simp
    then show ?thesis using None by simp
  next
    case (Some p)
    obtain res c1 where p: "p = (res, c1)" by (cases p)
    then obtain c2 where s2: "?f False = Some (res, c2)"
      using fc Some map_option_fst_Some [of res "?f False"] by auto
    have c1: "entriesOk ok c1" using fc Some p by simp
    have "map_option fst (closestAllyLoop allies ranges gt True rest r c1)
           = map_option fst (closestAllyLoop allies ranges gt False rest r c2)
         \<and> (\<forall>res c'. closestAllyLoop allies ranges gt True rest r c1 = Some (res, c')
               \<longrightarrow> entriesOk ok c')" for r
      using Cons.IH [OF c1 Arest, of r]
        closestAllyLoop_disabled_result [of allies ranges gt rest r c1 c2]
      by simp
    then show ?thesis using Some p s2 by simp
  qed
qed

lemma canTraverseToTarget_hex:
  "hex t = hex t' \<Longrightarrow> canTraverseToTarget ct t = canTraverseToTarget ct t'"
  by (rule ext) (simp add: canTraverseToTarget_def)

lemma idsIdentifyHexesD:
  "idsIdentifyHexes tiles \<Longrightarrow> a \<in> set tiles \<Longrightarrow> b \<in> set tiles
     \<Longrightarrow> getId (hex a) = getId (hex b) \<Longrightarrow> hex a = hex b"
  unfolding idsIdentifyHexes_def by blast

lemma idsIdentifyHexes_subset:
  "idsIdentifyHexes tiles \<Longrightarrow> set xs \<subseteq> set tiles \<Longrightarrow> idsIdentifyHexes xs"
  unfolding idsIdentifyHexes_def by blast

lemma pairOk_own_key:
  assumes S: "idsIdentifyHexes sources" and T: "idsIdentifyHexes targets"
    and a: "a \<in> set sources" and t: "t \<in> set targets"
  shows "pairOk sources targets rangeOf gt ct
           (generatePathCacheKey (getId (hex a)) (getId (hex t)) (rangeOf a)) v
         \<longleftrightarrow> computeDistance (hex a) (hex t) (rangeOf a) gt (canTraverseToTarget ct t) = Some v"
proof
  assume "pairOk sources targets rangeOf gt ct
           (generatePathCacheKey (getId (hex a)) (getId (hex t)) (rangeOf a)) v"
  then show "computeDistance (hex a) (hex t) (rangeOf a) gt (canTraverseToTarget ct t) = Some v"
    unfolding pairOk_def using a t by blast
next
  assume cd: "computeDistance (hex a) (hex t) (rangeOf a) gt (canTraverseToTarget ct t) = Some v"
  show "pairOk sources targets rangeOf gt ct
           (generatePathCacheKey (getId (hex a)) (getId (hex t)) (rangeOf a)) v"
    unfolding pairOk_def
  proof (intro ballI impI)
    fix a' t'
    assume a': "a' \<in> set sources" and t': "t' \<in> set targets"
      and k: "generatePathCacheKey (getId (hex a)) (getId (hex t)) (rangeOf a)
                = generatePathCacheKey (getId (hex a')) (getId (hex t')) (rangeOf a')"
    from k have ia: "getId (hex a) = getId (hex a')" and it: "getId (hex t) = getId (hex t')"
      and rr: "rangeOf a = rangeOf a'"
      by (simp_all add: generatePathCacheKey_def)
    have ha: "hex a = hex a'" using S a a' ia by (rule idsIdentifyHexesD)
    have ht: "hex t = hex t'" using T t t' it by (rule idsIdentifyHexesD)
    have ct: "canTraverseToTarget ct t = canTraverseToTarget ct t'"
      using ht by (rule canTraverseToTarget_hex)
    show "computeDistance (hex a') (hex t') (rangeOf a') gt (canTraverseToTarget ct t') = Some v"
      using cd unfolding ha ht rr ct .
  qed
qed

lemma map_of_fresh_append:
  "k \<notin> fst ` set xs \<Longrightarrow> map_of (xs @ [(k, v)]) k = Some v"
  by (induction xs) auto

lemma map_of_tl_fresh_append:
  "k \<notin> fst ` set xs \<Longrightarrow> map_of (tl (xs @ [(k, v)])) k = None
     \<or> map_of (tl (xs @ [(k, v)])) k = Some v"
proof (cases xs)
  case Nil
  then show ?thesis by simp
next
  case (Cons x xs')
  assume "k \<notin> fst ` set xs"
  then have "k \<notin> fst ` set xs'" using Cons by auto
  then have "map_of (xs' @ [(k, v)]) k = Some v" by (rule map_of_fresh_append)
  then show ?thesis using Cons by simp
qed

lemma memo_get_fst: "fst (memo_get k c) = map_of (entries c) k"
  by (simp add: memo_get_def split: option.splits)

lemma memo_get_again: "fst (memo_get k (snd (memo_get k c))) = fst (memo_get k c)"
proof (cases "map_of (entries c) k")
  case None
  then show ?thesis by (simp add: memo_get_def)
next
  case (Some v)
  have "k \<notin> fst ` set (filter (\<lambda>e. fst e \<noteq> k) (entries c))" by auto
  then have "map_of (filter (\<lambda>e. fst e \<noteq> k) (entries c) @ [(k, v)]) k = Some v"
    by (rule map_of_fresh_append)
  then show ?thesis using Some by (simp add: memo_get_def)
qed

lemma memo_set_then_get:
  "fst (memo_get k (memo_set k v c)) = None \<or> fst (memo_get k (memo_set k v c)) = Some v"
proof -
  let ?xs = "filter (\<lambda>e. fst e \<noteq> k) (entries c)"
  have f: "k \<notin> fst ` set ?xs" by auto
  have a: "map_of (?xs @ [(k, v)]) k = Some v" using f by (rule map_of_fresh_append)
  have b: "map_of (tl (?xs @ [(k, v)])) k = None \<or> map_of (tl (?xs @ [(k, v)])) k = Some v"
    using f by (rule map_of_tl_fresh_append)
  show ?thesis
    using a b by (simp add: memo_get_fst memo_set_def Let_def)
qed

lemma getEffectiveDistance_fst:
  "fst (getEffectiveDistance key cache) = fst (memo_get key (effectiveDistanceCache cache))"
  by (simp add: getEffectiveDistance_def split: prod.splits)

lemma getEffectiveDistance_snd:
  "effectiveDistanceCache (snd (getEffectiveDistance key cache))
     = snd (memo_get key (effectiveDistanceCache cache))"
  by (simp add: getEffectiveDistance_def split: prod.splits)

lemma getEffectiveDistance_again:
  "fst (getEffectiveDistance key (snd (getEffectiveDistance key cache)))
     = fst (getEffectiveDistance key cache)"
  by (simp only: getEffectiveDistance_fst getEffectiveDistance_snd memo_get_again)

lemma setEffectiveDistance_then_get:
  "fst (getEffectiveDistance key (setEffectiveDistance key v cache)) = None
     \<or> fst (getEffectiveDistance key (setEffectiveDistance key v cache)) = Some v"
  using memo_set_then_get [of key v "effectiveDistanceCache cache"]
  by (simp add: getEffectiveDistance_fst setEffectiveDistance_def)

lemma getClosestEnemyMapCache_fst:
  "fst (getClosestEnemyMapCache key cache) = fst (memo_get key (closestEnemyCache cache))"
  by (simp add: getClosestEnemyMapCache_def split: prod.splits)

lemma getClosestEnemyMapCache_snd:
  "closestEnemyCache (snd (getClosestEnemyMapCache key cache)) = snd (memo_get key (closestEnemyCache cache))"
  by (simp add: getClosestEnemyMapCache_def split: prod.splits)

lemma getClosestEnemyMapCache_again:
  "fst (getClosestEnemyMapCache key (snd (getClosestEnemyMapCache key cache)))
     = fst (getClosestEnemyMapCache key cache)"
  by (simp only: getClosestEnemyMapCache_fst getClosestEnemyMapCache_snd memo_get_again)

lemma setClosestEnemyMapCache_then_get:
  "fst (getClosestEnemyMapCache key (setClosestEnemyMapCache key v cache)) = None
     \<or> fst (getClosestEnemyMapCache key (setClosestEnemyMapCache key v cache)) = Some v"
  using memo_set_then_get [of key v "closestEnemyCache cache"]
  by (simp add: getClosestEnemyMapCache_fst setClosestEnemyMapCache_def)

lemma getClosestAllyMapCache_fst:
  "fst (getClosestAllyMapCache key cache) = fst (memo_get key (closestAllyCache cache))"
  by (simp add: getClosestAllyMapCache_def split: prod.splits)

lemma getClosestAllyMapCache_snd:
  "closestAllyCache (snd (getClosestAllyMapCache key cache)) = snd (memo_get key (closestAllyCache cache))"
  by (simp add: getClosestAllyMapCache_def split: prod.splits)

lemma getClosestAllyMapCache_again:
  "fst (getClosestAllyMapCache key (snd (getClosestAllyMapCache key cache)))
     = fst (getClosestAllyMapCache key cache)"
  by (simp only: getClosestAllyMapCache_fst getClosestAllyMapCache_snd memo_get_again)

lemma setClosestAllyMapCache_then_get:
  "fst (getClosestAllyMapCache key (setClosestAllyMapCache key v cache)) = None
     \<or> fst (getClosestAllyMapCache key (setClosestAllyMapCache key v cache)) = Some v"
  using memo_set_then_get [of key v "closestAllyCache cache"]
  by (simp add: getClosestAllyMapCache_fst setClosestAllyMapCache_def)

lemma getClosestEnemyMapCache_entriesOk:
  "entriesOk ok (snd (getClosestEnemyMapCache key cache)) \<longleftrightarrow> entriesOk ok cache"
  by (simp add: entriesOk_def getClosestEnemyMapCache_def split: prod.splits)

lemma getClosestAllyMapCache_entriesOk:
  "entriesOk ok (snd (getClosestAllyMapCache key cache)) \<longleftrightarrow> entriesOk ok cache"
  by (simp add: entriesOk_def getClosestAllyMapCache_def split: prod.splits)

lemma setClosestEnemyMapCache_entriesOk:
  "entriesOk ok (setClosestEnemyMapCache key m cache) \<longleftrightarrow> entriesOk ok cache"
  by (simp add: entriesOk_def setClosestEnemyMapCache_def)

lemma setClosestAllyMapCache_entriesOk:
  "entriesOk ok (setClosestAllyMapCache key m cache) \<longleftrightarrow> entriesOk ok cache"
  by (simp add: entriesOk_def setClosestAllyMapCache_def)

lemma distanceCallCoherentI:
  assumes "fst (getEffectiveDistance (generatePathCacheKey (getId start) (getId goal) rng) cache)
             = None
           \<or> fst (getEffectiveDistance (generatePathCacheKey (getId start) (getId goal) rng) cache)
             = computeDistance start goal rng gt ct"
  shows "distanceCallCoherent start goal rng gt ct cache"
  using assms unfolding distanceCallCoherent_def by (auto split: option.splits)

lemma calculateEffectiveDistance_transparent:
  assumes coh: "distanceCallCoherent start goal rng gt ct cache"
  shows "map_option fst (calculateEffectiveDistance start goal rng gt ct True cache)
           = map_option fst (calculateEffectiveDistance start goal rng gt ct False cache)"
    and "calculateEffectiveDistance start goal rng gt ct True cache = Some (w, c')
           \<Longrightarrow> distanceCallCoherent start goal rng gt ct c'"
proof -
  let ?key = "generatePathCacheKey (getId start) (getId goal) rng"
  let ?c1 = "snd (getEffectiveDistance ?key cache)"
  show "map_option fst (calculateEffectiveDistance start goal rng gt ct True cache)
           = map_option fst (calculateEffectiveDistance start goal rng gt ct False cache)"
  proof (cases "fst (getEffectiveDistance ?key cache)")
    case None
    then show ?thesis
      by (simp add: calculateEffectiveDistance_miss calculateEffectiveDistance_disabled
            option.map_comp comp_def)
  next
    case (Some v)
    then have "computeDistance start goal rng gt ct = Some v"
      using coh unfolding distanceCallCoherent_def by simp
    then show ?thesis using Some
      by (simp add: calculateEffectiveDistance_hit calculateEffectiveDistance_disabled)
  qed
  show "distanceCallCoherent start goal rng gt ct c'"
    if r: "calculateEffectiveDistance start goal rng gt ct True cache = Some (w, c')"
  proof (cases "fst (getEffectiveDistance ?key cache)")
    case None
    from r have "map_option
             (\<lambda>v. (v, setEffectiveDistance ?key v ?c1)) (computeDistance start goal rng gt ct)
              = Some (w, c')"
      by (simp only: calculateEffectiveDistance_miss [OF None])
    then have cd: "computeDistance start goal rng gt ct = Some w"
      and c': "c' = setEffectiveDistance ?key w ?c1"
      by auto
    show ?thesis
      unfolding c' cd
      using setEffectiveDistance_then_get [of ?key w ?c1]
      by (intro distanceCallCoherentI) (simp only: cd)
  next
    case (Some v)
    then have c': "c' = ?c1" using r by (simp add: calculateEffectiveDistance_hit)
    have cd: "computeDistance start goal rng gt ct = Some v"
      using coh Some unfolding distanceCallCoherent_def by simp
    show ?thesis
      unfolding c'
      by (intro distanceCallCoherentI disjI2)
        (simp only: getEffectiveDistance_again Some cd)
  qed
qed

lemma findClosestTarget_transparent:
  fixes cache :: "'k PathfindingCache"
  assumes coh: "targetCallCoherent src tts rng gt ct cache"
  shows "map_option fst (findClosestTarget src tts rng gt ct True cache)
           = map_option fst (findClosestTarget src tts rng gt ct False cache)
         \<and> (\<forall>res c'. findClosestTarget src tts rng gt ct True cache = Some (res, c')
               \<longrightarrow> targetCallCoherent src tts rng gt ct c')"
proof -
  have T: "idsIdentifyHexes tts" using coh unfolding targetCallCoherent_def by simp
  have S: "idsIdentifyHexes [src]" by (simp add: idsIdentifyHexes_def)
  have ok: "entriesOk (pairOk [src] tts (\<lambda>_. rng) gt ct) cache"
    using coh unfolding targetCallCoherent_def distancesCoherent_def by simp
  have A: "pairOk [src] tts (\<lambda>_. rng) gt ct
             (generatePathCacheKey (getId (hex src)) (getId (hex t)) rng) v
           \<longleftrightarrow> computeDistance (hex src) (hex t) rng gt (canTraverseToTarget ct t) = Some v"
    if "t \<in> set tts" for t v
    using pairOk_own_key [OF S T _ that, of src "\<lambda>_. rng" gt ct v] by simp
  show ?thesis
    using findClosestTarget_cached [of "pairOk [src] tts (\<lambda>_. rng) gt ct" cache tts src rng gt ct,
        OF ok A] T
    unfolding targetCallCoherent_def distancesCoherent_def
    by simp
qed

lemma getClosestEnemyMap_disabled_result:
  "map_option fst (getClosestEnemyMap gk tiles ranges False getTile (c1 :: 'k PathfindingCache))
     = map_option fst (getClosestEnemyMap gk tiles ranges False getTile
                         (c2 :: 'k PathfindingCache))"
proof -
  let ?allies = "filter (\<lambda>tile. team tile = Some ALLY) tiles"
  let ?enemies = "filter (\<lambda>tile. team tile = Some ENEMY) tiles"
  let ?gt = "getTileHelper tiles getTile"
  have r: "map_option fst (getClosestEnemyMap gk tiles ranges False getTile c)
             = map_option fst (closestEnemyLoop ?enemies ranges ?gt False ?allies [] c)"
    for c :: "'k PathfindingCache"
    by (simp add: getClosestEnemyMap_def Let_def split: option.splits)
  show ?thesis unfolding r by (rule closestEnemyLoop_disabled_result)
qed

lemma getClosestAllyMap_disabled_result:
  "map_option fst (getClosestAllyMap gk tiles ranges False getTile (c1 :: 'k PathfindingCache))
     = map_option fst (getClosestAllyMap gk tiles ranges False getTile
                         (c2 :: 'k PathfindingCache))"
proof -
  let ?allies = "filter (\<lambda>tile. team tile = Some ALLY) tiles"
  let ?enemies = "filter (\<lambda>tile. team tile = Some ENEMY) tiles"
  let ?gt = "getTileHelper tiles getTile"
  have r: "map_option fst (getClosestAllyMap gk tiles ranges False getTile c)
             = map_option fst (closestAllyLoop ?allies ranges ?gt False ?enemies [] c)"
    for c :: "'k PathfindingCache"
    by (simp add: getClosestAllyMap_def Let_def split: option.splits)
  show ?thesis unfolding r by (rule closestAllyLoop_disabled_result)
qed

lemma enemyMapCallCoherentI:
  assumes "idsIdentifyHexes tiles"
    and "entriesOk (pairOk (filter (\<lambda>tile. team tile = Some ALLY) tiles)
           (filter (\<lambda>tile. team tile = Some ENEMY) tiles) (characterRange ranges)
           (getTileHelper tiles getTile) defaultCanTraverse) cache"
    and "fst (getClosestEnemyMapCache (gk tiles ranges) cache) = None
         \<or> fst (getClosestEnemyMapCache (gk tiles ranges) cache) = Some m
           \<and> map_option fst (getClosestEnemyMap gk tiles ranges False getTile cache) = Some m"
  shows "enemyMapCallCoherent gk tiles ranges getTile cache"
  using assms unfolding enemyMapCallCoherent_def distancesCoherent_def
  by (auto split: option.splits)

lemma allyMapCallCoherentI:
  assumes "idsIdentifyHexes tiles"
    and "entriesOk (pairOk (filter (\<lambda>tile. team tile = Some ENEMY) tiles)
           (filter (\<lambda>tile. team tile = Some ALLY) tiles) (characterRange ranges)
           (getTileHelper tiles getTile) defaultCanTraverse) cache"
    and "fst (getClosestAllyMapCache (gk tiles ranges) cache) = None
         \<or> fst (getClosestAllyMapCache (gk tiles ranges) cache) = Some m
           \<and> map_option fst (getClosestAllyMap gk tiles ranges False getTile cache) = Some m"
  shows "allyMapCallCoherent gk tiles ranges getTile cache"
  using assms unfolding allyMapCallCoherent_def distancesCoherent_def
  by (auto split: option.splits)

lemma getClosestEnemyMap_transparent:
  fixes cache :: "'k PathfindingCache"
  assumes coh: "enemyMapCallCoherent gk tiles ranges getTile cache"
  shows "map_option fst (getClosestEnemyMap gk tiles ranges True getTile cache)
           = map_option fst (getClosestEnemyMap gk tiles ranges False getTile cache)"
    and "getClosestEnemyMap gk tiles ranges True getTile cache = Some (m, c')
           \<Longrightarrow> enemyMapCallCoherent gk tiles ranges getTile c'"
proof -
  let ?allies = "filter (\<lambda>tile. team tile = Some ALLY) tiles"
  let ?enemies = "filter (\<lambda>tile. team tile = Some ENEMY) tiles"
  let ?gt = "getTileHelper tiles getTile"
  let ?ok = "pairOk ?allies ?enemies (characterRange ranges) ?gt defaultCanTraverse"
  let ?key = "gk tiles ranges"
  let ?c0 = "snd (getClosestEnemyMapCache ?key cache)"
  let ?T = "getClosestEnemyMap gk tiles ranges True getTile cache"
  let ?F = "\<lambda>c. map_option fst (getClosestEnemyMap gk tiles ranges False getTile c)"
  let ?loopT = "closestEnemyLoop ?enemies ranges ?gt True ?allies [] ?c0"
  have I: "idsIdentifyHexes tiles" using coh unfolding enemyMapCallCoherent_def by simp
  have ok: "entriesOk ?ok cache"
    using coh unfolding enemyMapCallCoherent_def distancesCoherent_def by simp
  then have ok0: "entriesOk ?ok ?c0" by (simp only: getClosestEnemyMapCache_entriesOk)
  have agg: "?F cache = Some x" if "fst (getClosestEnemyMapCache ?key cache) = Some x" for x
    using coh that unfolding enemyMapCallCoherent_def by simp
  have S: "idsIdentifyHexes ?allies" using I by (rule idsIdentifyHexes_subset) simp
  have T: "idsIdentifyHexes ?enemies" using I by (rule idsIdentifyHexes_subset) simp
  have A: "?ok (generatePathCacheKey (getId (hex a)) (getId (hex t)) (characterRange ranges a)) v
           \<longleftrightarrow> computeDistance (hex a) (hex t) (characterRange ranges a) ?gt
                 (canTraverseToTarget defaultCanTraverse t) = Some v"
    if "a \<in> set ?allies" "t \<in> set ?enemies" for a t v
    using S T that by (rule pairOk_own_key)
  have loop: "map_option fst ?loopT
          = map_option fst (closestEnemyLoop ?enemies ranges ?gt False ?allies [] ?c0)
         \<and> (\<forall>res cl. ?loopT = Some (res, cl) \<longrightarrow> entriesOk ?ok cl)"
    using ok0 A by (rule closestEnemyLoop_cached)
  have indep: "map_option fst (closestEnemyLoop ?enemies ranges ?gt False ?allies [] ?c0)
            = map_option fst (closestEnemyLoop ?enemies ranges ?gt False ?allies [] cache)"
    by (rule closestEnemyLoop_disabled_result)
  have r: "?F cache
             = map_option fst (closestEnemyLoop ?enemies ranges ?gt False ?allies [] cache)"
    by (simp add: getClosestEnemyMap_def Let_def split: option.splits)
  have Fc: "?F c = ?F cache" for c :: "'k PathfindingCache"
    by (rule getClosestEnemyMap_disabled_result)
  show eq: "map_option fst ?T = ?F cache"
  proof (cases "fst (getClosestEnemyMapCache ?key cache)")
    case (Some x)
    then have l: "map_option fst ?T = Some x"
      by (simp add: getClosestEnemyMap_def Let_def)
    show ?thesis unfolding l agg [OF Some] by (rule refl)
  next
    case None
    have l: "map_option fst ?T = map_option fst ?loopT"
      using None by (simp add: getClosestEnemyMap_def Let_def split: option.splits)
    show ?thesis unfolding l r using loop indep by simp
  qed
  show "enemyMapCallCoherent gk tiles ranges getTile c'" if res: "?T = Some (m, c')"
  proof (cases "fst (getClosestEnemyMapCache ?key cache)")
    case (Some x)
    then have "?T = Some (x, ?c0)" by (simp add: getClosestEnemyMap_def Let_def)
    then have c': "c' = ?c0" and m: "m = x" using res by simp_all
    have g: "fst (getClosestEnemyMapCache ?key ?c0) = Some x"
      by (simp only: getClosestEnemyMapCache_again Some)
    have f: "?F ?c0 = Some x" unfolding Fc [of ?c0] by (rule agg [OF Some])
    show ?thesis unfolding c'
      using I ok0 by (rule enemyMapCallCoherentI [where m = x]) (simp add: g f)
  next
    case None
    have l: "?T = (case ?loopT of None \<Rightarrow> None
                   | Some (res, cl) \<Rightarrow> Some (res, setClosestEnemyMapCache ?key res cl))"
      using None by (simp add: getClosestEnemyMap_def Let_def split: option.splits)
    from res obtain cl where lt: "?loopT = Some (m, cl)"
      and c': "c' = setClosestEnemyMapCache ?key m cl"
      unfolding l by (auto split: option.splits)
    have "entriesOk ?ok cl" using loop lt by blast
    then have okc: "entriesOk ?ok (setClosestEnemyMapCache ?key m cl)"
      by (simp only: setClosestEnemyMapCache_entriesOk)
    have f: "?F (setClosestEnemyMapCache ?key m cl) = Some m"
      unfolding Fc [of "setClosestEnemyMapCache ?key m cl"] eq [symmetric] res by simp
    show ?thesis unfolding c'
      using I okc
    proof (rule enemyMapCallCoherentI)
      show "fst (getClosestEnemyMapCache ?key (setClosestEnemyMapCache ?key m cl)) = None
         \<or> fst (getClosestEnemyMapCache ?key (setClosestEnemyMapCache ?key m cl)) = Some m
           \<and> ?F (setClosestEnemyMapCache ?key m cl) = Some m"
        using setClosestEnemyMapCache_then_get [of ?key m cl] f by blast
    qed
  qed
qed

lemma getClosestAllyMap_transparent:
  fixes cache :: "'k PathfindingCache"
  assumes coh: "allyMapCallCoherent gk tiles ranges getTile cache"
  shows "map_option fst (getClosestAllyMap gk tiles ranges True getTile cache)
           = map_option fst (getClosestAllyMap gk tiles ranges False getTile cache)"
    and "getClosestAllyMap gk tiles ranges True getTile cache = Some (m, c')
           \<Longrightarrow> allyMapCallCoherent gk tiles ranges getTile c'"
proof -
  let ?allies = "filter (\<lambda>tile. team tile = Some ALLY) tiles"
  let ?enemies = "filter (\<lambda>tile. team tile = Some ENEMY) tiles"
  let ?gt = "getTileHelper tiles getTile"
  let ?ok = "pairOk ?enemies ?allies (characterRange ranges) ?gt defaultCanTraverse"
  let ?key = "gk tiles ranges"
  let ?c0 = "snd (getClosestAllyMapCache ?key cache)"
  let ?T = "getClosestAllyMap gk tiles ranges True getTile cache"
  let ?F = "\<lambda>c. map_option fst (getClosestAllyMap gk tiles ranges False getTile c)"
  let ?loopT = "closestAllyLoop ?allies ranges ?gt True ?enemies [] ?c0"
  have I: "idsIdentifyHexes tiles" using coh unfolding allyMapCallCoherent_def by simp
  have ok: "entriesOk ?ok cache"
    using coh unfolding allyMapCallCoherent_def distancesCoherent_def by simp
  then have ok0: "entriesOk ?ok ?c0" by (simp only: getClosestAllyMapCache_entriesOk)
  have agg: "?F cache = Some x" if "fst (getClosestAllyMapCache ?key cache) = Some x" for x
    using coh that unfolding allyMapCallCoherent_def by simp
  have S: "idsIdentifyHexes ?enemies" using I by (rule idsIdentifyHexes_subset) simp
  have T: "idsIdentifyHexes ?allies" using I by (rule idsIdentifyHexes_subset) simp
  have A: "?ok (generatePathCacheKey (getId (hex a)) (getId (hex t)) (characterRange ranges a)) v
           \<longleftrightarrow> computeDistance (hex a) (hex t) (characterRange ranges a) ?gt
                 (canTraverseToTarget defaultCanTraverse t) = Some v"
    if "a \<in> set ?enemies" "t \<in> set ?allies" for a t v
    using S T that by (rule pairOk_own_key)
  have loop: "map_option fst ?loopT
          = map_option fst (closestAllyLoop ?allies ranges ?gt False ?enemies [] ?c0)
         \<and> (\<forall>res cl. ?loopT = Some (res, cl) \<longrightarrow> entriesOk ?ok cl)"
    using ok0 A by (rule closestAllyLoop_cached)
  have indep: "map_option fst (closestAllyLoop ?allies ranges ?gt False ?enemies [] ?c0)
            = map_option fst (closestAllyLoop ?allies ranges ?gt False ?enemies [] cache)"
    by (rule closestAllyLoop_disabled_result)
  have r: "?F cache
             = map_option fst (closestAllyLoop ?allies ranges ?gt False ?enemies [] cache)"
    by (simp add: getClosestAllyMap_def Let_def split: option.splits)
  have Fc: "?F c = ?F cache" for c :: "'k PathfindingCache"
    by (rule getClosestAllyMap_disabled_result)
  show eq: "map_option fst ?T = ?F cache"
  proof (cases "fst (getClosestAllyMapCache ?key cache)")
    case (Some x)
    then have l: "map_option fst ?T = Some x"
      by (simp add: getClosestAllyMap_def Let_def)
    show ?thesis unfolding l agg [OF Some] by (rule refl)
  next
    case None
    have l: "map_option fst ?T = map_option fst ?loopT"
      using None by (simp add: getClosestAllyMap_def Let_def split: option.splits)
    show ?thesis unfolding l r using loop indep by simp
  qed
  show "allyMapCallCoherent gk tiles ranges getTile c'" if res: "?T = Some (m, c')"
  proof (cases "fst (getClosestAllyMapCache ?key cache)")
    case (Some x)
    then have "?T = Some (x, ?c0)" by (simp add: getClosestAllyMap_def Let_def)
    then have c': "c' = ?c0" and m: "m = x" using res by simp_all
    have g: "fst (getClosestAllyMapCache ?key ?c0) = Some x"
      by (simp only: getClosestAllyMapCache_again Some)
    have f: "?F ?c0 = Some x" unfolding Fc [of ?c0] by (rule agg [OF Some])
    show ?thesis unfolding c'
      using I ok0 by (rule allyMapCallCoherentI [where m = x]) (simp add: g f)
  next
    case None
    have l: "?T = (case ?loopT of None \<Rightarrow> None
                   | Some (res, cl) \<Rightarrow> Some (res, setClosestAllyMapCache ?key res cl))"
      using None by (simp add: getClosestAllyMap_def Let_def split: option.splits)
    from res obtain cl where lt: "?loopT = Some (m, cl)"
      and c': "c' = setClosestAllyMapCache ?key m cl"
      unfolding l by (auto split: option.splits)
    have "entriesOk ?ok cl" using loop lt by blast
    then have okc: "entriesOk ?ok (setClosestAllyMapCache ?key m cl)"
      by (simp only: setClosestAllyMapCache_entriesOk)
    have f: "?F (setClosestAllyMapCache ?key m cl) = Some m"
      unfolding Fc [of "setClosestAllyMapCache ?key m cl"] eq [symmetric] res by simp
    show ?thesis unfolding c'
      using I okc
    proof (rule allyMapCallCoherentI)
      show "fst (getClosestAllyMapCache ?key (setClosestAllyMapCache ?key m cl)) = None
         \<or> fst (getClosestAllyMapCache ?key (setClosestAllyMapCache ?key m cl)) = Some m
           \<and> ?F (setClosestAllyMapCache ?key m cl) = Some m"
        using setClosestAllyMapCache_then_get [of ?key m cl] f by blast
    qed
  qed
qed

text \<open>
  Claim C3, as amended. Each of \<open>calculateEffectiveDistance\<close>, \<open>findClosestTarget\<close>,
  \<open>getClosestEnemyMap\<close> and \<open>getClosestAllyMap\<close> returns the same value with caching enabled
  as with caching disabled (and returns in the one case exactly when it does in the other)
  whenever the cache is coherent with the call: every entry that the call can read is the
  value the call computes without a cache, and tiles with the same hex identifier lie on
  the same hex. A call with caching enabled leaves the cache coherent with the same call,
  so the same holds for every further call over the same inputs.
\<close>

theorem caching_preserves_results:
  fixes cache :: "'k PathfindingCache"
  shows
  "(distanceCallCoherent start goal rng getTile canTraverse cache \<longrightarrow>
      map_option fst (calculateEffectiveDistance start goal rng getTile canTraverse True cache)
        = map_option fst (calculateEffectiveDistance start goal rng getTile canTraverse False cache)
      \<and> (\<forall>res cache'.
            calculateEffectiveDistance start goal rng getTile canTraverse True cache
              = Some (res, cache')
            \<longrightarrow> distanceCallCoherent start goal rng getTile canTraverse cache'))
   \<and> (targetCallCoherent sourceTile targetTiles sourceRange getTile canTraverse cache \<longrightarrow>
      map_option fst
        (findClosestTarget sourceTile targetTiles sourceRange getTile canTraverse True cache)
        = map_option fst
            (findClosestTarget sourceTile targetTiles sourceRange getTile canTraverse False cache)
      \<and> (\<forall>res cache'.
            findClosestTarget sourceTile targetTiles sourceRange getTile canTraverse True cache
              = Some (res, cache')
            \<longrightarrow> targetCallCoherent sourceTile targetTiles sourceRange getTile canTraverse cache'))
   \<and> (enemyMapCallCoherent generateGridCacheKey tilesWithCharacters characterRanges lookup cache
      \<longrightarrow>
      map_option fst
        (getClosestEnemyMap generateGridCacheKey tilesWithCharacters characterRanges True lookup
           cache)
        = map_option fst
            (getClosestEnemyMap generateGridCacheKey tilesWithCharacters characterRanges False
               lookup cache)
      \<and> (\<forall>res cache'.
            getClosestEnemyMap generateGridCacheKey tilesWithCharacters characterRanges True lookup
              cache = Some (res, cache')
            \<longrightarrow> enemyMapCallCoherent generateGridCacheKey tilesWithCharacters characterRanges
                  lookup cache'))
   \<and> (allyMapCallCoherent generateGridCacheKey tilesWithCharacters characterRanges lookup cache
      \<longrightarrow>
      map_option fst
        (getClosestAllyMap generateGridCacheKey tilesWithCharacters characterRanges True lookup
           cache)
        = map_option fst
            (getClosestAllyMap generateGridCacheKey tilesWithCharacters characterRanges False
               lookup cache)
      \<and> (\<forall>res cache'.
            getClosestAllyMap generateGridCacheKey tilesWithCharacters characterRanges True lookup
              cache = Some (res, cache')
            \<longrightarrow> allyMapCallCoherent generateGridCacheKey tilesWithCharacters characterRanges
                  lookup cache'))"
proof (intro conjI impI allI)
  assume "distanceCallCoherent start goal rng getTile canTraverse cache"
  then show "map_option fst
               (calculateEffectiveDistance start goal rng getTile canTraverse True cache)
        = map_option fst (calculateEffectiveDistance start goal rng getTile canTraverse False cache)"
    by (rule calculateEffectiveDistance_transparent(1))
next
  fix res cache'
  assume "distanceCallCoherent start goal rng getTile canTraverse cache"
    and "calculateEffectiveDistance start goal rng getTile canTraverse True cache
              = Some (res, cache')"
  then show "distanceCallCoherent start goal rng getTile canTraverse cache'"
    by (rule calculateEffectiveDistance_transparent(2))
next
  assume "targetCallCoherent sourceTile targetTiles sourceRange getTile canTraverse cache"
  then show "map_option fst
        (findClosestTarget sourceTile targetTiles sourceRange getTile canTraverse True cache)
        = map_option fst
            (findClosestTarget sourceTile targetTiles sourceRange getTile canTraverse False cache)"
    using findClosestTarget_transparent by blast
next
  fix res cache'
  assume "targetCallCoherent sourceTile targetTiles sourceRange getTile canTraverse cache"
    and "findClosestTarget sourceTile targetTiles sourceRange getTile canTraverse True cache
              = Some (res, cache')"
  then show "targetCallCoherent sourceTile targetTiles sourceRange getTile canTraverse cache'"
    using findClosestTarget_transparent by blast
next
  assume "enemyMapCallCoherent generateGridCacheKey tilesWithCharacters characterRanges lookup
            cache"
  then show "map_option fst
        (getClosestEnemyMap generateGridCacheKey tilesWithCharacters characterRanges True lookup
           cache)
        = map_option fst
            (getClosestEnemyMap generateGridCacheKey tilesWithCharacters characterRanges False
               lookup cache)"
    by (rule getClosestEnemyMap_transparent(1))
next
  fix res cache'
  assume "enemyMapCallCoherent generateGridCacheKey tilesWithCharacters characterRanges lookup
            cache"
    and "getClosestEnemyMap generateGridCacheKey tilesWithCharacters characterRanges True lookup
              cache = Some (res, cache')"
  then show "enemyMapCallCoherent generateGridCacheKey tilesWithCharacters characterRanges
                  lookup cache'"
    by (rule getClosestEnemyMap_transparent(2))
next
  assume "allyMapCallCoherent generateGridCacheKey tilesWithCharacters characterRanges lookup
            cache"
  then show "map_option fst
        (getClosestAllyMap generateGridCacheKey tilesWithCharacters characterRanges True lookup
           cache)
        = map_option fst
            (getClosestAllyMap generateGridCacheKey tilesWithCharacters characterRanges False
               lookup cache)"
    by (rule getClosestAllyMap_transparent(1))
next
  fix res cache'
  assume "allyMapCallCoherent generateGridCacheKey tilesWithCharacters characterRanges lookup
            cache"
    and "getClosestAllyMap generateGridCacheKey tilesWithCharacters characterRanges True lookup
              cache = Some (res, cache')"
  then show "allyMapCallCoherent generateGridCacheKey tilesWithCharacters characterRanges
                  lookup cache'"
    by (rule getClosestAllyMap_transparent(2))
qed

text \<open>
  Claim C3 as stated fails: the key of a distance entry is made of the two identifiers and
  the range only, so an entry stored by a search on one board is returned for the same
  pair on another board. After a search on an open board the cache answers, on the board
  without tiles, that the goal is reachable with two moves, where the call without caching
  answers that it is not reachable.
\<close>

theorem cached_distance_outlives_board_counterexample:
  "calculateEffectiveDistance (mkHex 0 0 1) (mkHex 3 0 2) 1 (discGrid 4) defaultCanTraverse True
     emptyCache
     = Some (\<lparr>movementDistance = 2, canReach = True, directDistance = 3\<rparr>, boardCache)
   \<and> map_option fst
       (calculateEffectiveDistance (mkHex 0 0 1) (mkHex 3 0 2) 1 noTiles defaultCanTraverse True
          boardCache)
       = Some \<lparr>movementDistance = 2, canReach = True, directDistance = 3\<rparr>
   \<and> map_option fst
       (calculateEffectiveDistance (mkHex 0 0 1) (mkHex 3 0 2) 1 noTiles defaultCanTraverse False
          boardCache)
       = Some \<lparr>movementDistance = \<infinity>, canReach = False, directDistance = 3\<rparr>
   \<and> map_option fst
       (calculateEffectiveDistance (mkHex 0 0 1) (mkHex 3 0 2) 1 noTiles defaultCanTraverse True
          boardCache)
       \<noteq> map_option fst
           (calculateEffectiveDistance (mkHex 0 0 1) (mkHex 3 0 2) 1 noTiles defaultCanTraverse
              False boardCache)"
  by code_simp

theorem caching_preserves_results_witness:
  "distanceCallCoherent (mkHex 0 0 1) (mkHex 2 0 2) 1 (discGrid 3) defaultCanTraverse duelCache
   \<and> fst (getEffectiveDistance (generatePathCacheKey 1 2 1) duelCache)
       = Some \<lparr>movementDistance = 1, canReach = True, directDistance = 2\<rparr>
   \<and> map_option fst
       (calculateEffectiveDistance (mkHex 0 0 1) (mkHex 2 0 2) 1 (discGrid 3) defaultCanTraverse
          True duelCache)
       = map_option fst
           (calculateEffectiveDistance (mkHex 0 0 1) (mkHex 2 0 2) 1 (discGrid 3)
              defaultCanTraverse False duelCache)
   \<and> targetCallCoherent (unitTile (mkHex 0 0 1) ALLY ''a'') [unitTile (mkHex 2 0 2) ENEMY ''e'']
       1 (discGrid 3) defaultCanTraverse duelCache
   \<and> map_option fst
       (findClosestTarget (unitTile (mkHex 0 0 1) ALLY ''a'') [unitTile (mkHex 2 0 2) ENEMY ''e'']
          1 (discGrid 3) defaultCanTraverse True duelCache)
       = map_option fst
           (findClosestTarget (unitTile (mkHex 0 0 1) ALLY ''a'')
              [unitTile (mkHex 2 0 2) ENEMY ''e''] 1 (discGrid 3) defaultCanTraverse False
              duelCache)
   \<and> enemyMapCallCoherent unitKey duelBoard duelRanges (Some (discGrid 3)) duelCache
   \<and> map_option fst
       (getClosestEnemyMap unitKey duelBoard duelRanges True (Some (discGrid 3)) duelCache)
       = map_option fst
           (getClosestEnemyMap unitKey duelBoard duelRanges False (Some (discGrid 3)) duelCache)
   \<and> allyMapCallCoherent unitKey duelBoard duelRanges (Some (discGrid 3)) duelCache
   \<and> map_option fst
       (getClosestAllyMap unitKey duelBoard duelRanges True (Some (discGrid 3)) duelCache)
       = map_option fst
           (getClosestAllyMap unitKey duelBoard duelRanges False (Some (discGrid 3)) duelCache)"
proof -
  have h1: "distanceCallCoherent (mkHex 0 0 1) (mkHex 2 0 2) 1 (discGrid 3) defaultCanTraverse
              duelCache"
    by code_simp
  have e1: "fst (getEffectiveDistance (generatePathCacheKey 1 2 1) duelCache)
       = Some \<lparr>movementDistance = 1, canReach = True, directDistance = 2\<rparr>"
    by code_simp
  have h2: "targetCallCoherent (unitTile (mkHex 0 0 1) ALLY ''a'')
              [unitTile (mkHex 2 0 2) ENEMY ''e''] 1 (discGrid 3) defaultCanTraverse duelCache"
    by code_simp
  have h3: "enemyMapCallCoherent unitKey duelBoard duelRanges (Some (discGrid 3)) duelCache"
    by code_simp
  have h4: "allyMapCallCoherent unitKey duelBoard duelRanges (Some (discGrid 3)) duelCache"
    by code_simp
  show ?thesis
    using caching_preserves_results [of "mkHex 0 0 1" "mkHex 2 0 2" 1 "discGrid 3"
        defaultCanTraverse duelCache "unitTile (mkHex 0 0 1) ALLY ''a''"
        "[unitTile (mkHex 2 0 2) ENEMY ''e'']" 1 unitKey duelBoard duelRanges
        "Some (discGrid 3)"]
      h1 e1 h2 h3 h4
    by blast
qed

subsection \<open>The effective distance of a call that searches\<close>

lemma calculateEffectiveDistance_coherent:
  assumes "cachingEnabled \<longrightarrow> distanceCallCoherent start goal rng getTile canTraverse cache"
  shows "map_option fst
           (calculateEffectiveDistance start goal rng getTile canTraverse cachingEnabled cache)
         = computeDistance start goal rng getTile canTraverse"
proof (cases cachingEnabled)
  case True
  then have "distanceCallCoherent start goal rng getTile canTraverse cache" using assms by simp
  then have "map_option fst
               (calculateEffectiveDistance start goal rng getTile canTraverse True cache)
        = map_option fst (calculateEffectiveDistance start goal rng getTile canTraverse False cache)"
    by (rule calculateEffectiveDistance_transparent(1))
  then show ?thesis using True
    by (simp add: calculateEffectiveDistance_disabled option.map_comp comp_def
          option.map_ident)
next
  case False
  then show ?thesis
    by (simp add: calculateEffectiveDistance_disabled option.map_comp comp_def
          option.map_ident)
qed

lemma computeDistance_path_found:
  assumes "rng < int (distance start goal)"
    and "findPath start goal getTile canTraverse = Some (Some path)"
  shows "computeDistance start goal rng getTile canTraverse
           = Some \<lparr>movementDistance = enat (nat (max 0 ((int (length path) - 1) - rng))),
                    canReach = True, directDistance = distance start goal\<rparr>"
  using assms by (simp add: computeDistance_def calculateEffectiveDistance_def Let_def)

lemma computeDistance_no_path:
  assumes "rng < int (distance start goal)"
    and "findPath start goal getTile canTraverse = Some None"
  shows "computeDistance start goal rng getTile canTraverse
           = Some \<lparr>movementDistance = \<infinity>, canReach = False,
                    directDistance = distance start goal\<rparr>"
  using assms by (simp add: computeDistance_def calculateEffectiveDistance_def Let_def)

text \<open>
  Claim C2, as amended. When the hex distance from start to goal exceeds the range and
  \<open>findPath\<close> returns a path, \<open>calculateEffectiveDistance\<close> returns \<open>canReach = True\<close> and the
  movement distance \<open>max 0 ((length path - 1) - range)\<close>, provided that caching is
  disabled or the cache is coherent with the call: it holds no entry under the key of the
  call, or the entry it holds there is what the call computes without a cache.
\<close>

theorem effective_distance_path_found:
  assumes "rng < int (distance start goal)"
    and "findPath start goal getTile canTraverse = Some (Some path)"
    and "cachingEnabled \<longrightarrow> distanceCallCoherent start goal rng getTile canTraverse cache"
  shows "\<exists>cache'. calculateEffectiveDistance start goal rng getTile canTraverse cachingEnabled cache
            = Some (\<lparr>movementDistance = enat (nat (max 0 ((int (length path) - 1) - rng))),
                      canReach = True, directDistance = distance start goal\<rparr>, cache')"
proof -
  have "Some \<lparr>movementDistance = enat (nat (max 0 ((int (length path) - 1) - rng))),
               canReach = True, directDistance = distance start goal\<rparr>
        = map_option fst
            (calculateEffectiveDistance start goal rng getTile canTraverse cachingEnabled cache)"
    unfolding calculateEffectiveDistance_coherent [OF assms(3)]
      computeDistance_path_found [OF assms(1,2)]
    by (rule refl)
  then show ?thesis by (rule map_option_fst_Some)
qed

text \<open>
  Claim C2 as stated fails on a cache hit: the entry under the key of the call is returned
  before anything is computed. After a search on the board without tiles, the call for the
  same pair on an open board, where the distance exceeds the range and \<open>findPath\<close> returns
  a path of four hexes, returns the stored unreachable result.
\<close>

theorem stale_unreachable_entry_counterexample:
  "calculateEffectiveDistance (mkHex 0 0 1) (mkHex 3 0 2) 1 noTiles defaultCanTraverse True
     emptyCache
     = Some (\<lparr>movementDistance = \<infinity>, canReach = False, directDistance = 3\<rparr>, noTilesCache)
   \<and> 1 < int (distance (mkHex 0 0 1) (mkHex 3 0 2))
   \<and> findPath (mkHex 0 0 1) (mkHex 3 0 2) (discGrid 4) defaultCanTraverse
       = Some (Some [mkHex 0 0 1, mkHex 1 0 (-1), mkHex 2 0 (-1), mkHex 3 0 (-1)])
   \<and> map_option fst
       (calculateEffectiveDistance (mkHex 0 0 1) (mkHex 3 0 2) 1 (discGrid 4) defaultCanTraverse
          True noTilesCache)
       = Some \<lparr>movementDistance = \<infinity>, canReach = False, directDistance = 3\<rparr>"
  by code_simp

theorem effective_distance_path_found_witness:
  "1 < int (distance (mkHex 0 0 1) (mkHex 3 0 2))
   \<and> findPath (mkHex 0 0 1) (mkHex 3 0 2) (discGrid 4) defaultCanTraverse
       = Some (Some [mkHex 0 0 1, mkHex 1 0 (-1), mkHex 2 0 (-1), mkHex 3 0 (-1)])
   \<and> distanceCallCoherent (mkHex 0 0 1) (mkHex 3 0 2) 1 (discGrid 4) defaultCanTraverse
       boardCache
   \<and> fst (getEffectiveDistance (generatePathCacheKey 1 2 1) boardCache)
       = Some \<lparr>movementDistance = 2, canReach = True, directDistance = 3\<rparr>
   \<and> (\<exists>cache'. calculateEffectiveDistance (mkHex 0 0 1) (mkHex 3 0 2) 1 (discGrid 4)
          defaultCanTraverse True boardCache
        = Some (\<lparr>movementDistance = 2, canReach = True, directDistance = 3\<rparr>, cache'))
   \<and> distanceCallCoherent (mkHex 0 0 1) (mkHex 3 0 2) 1 (discGrid 4) defaultCanTraverse
       emptyCache
   \<and> (\<exists>cache'. calculateEffectiveDistance (mkHex 0 0 1) (mkHex 3 0 2) 1 (discGrid 4)
          defaultCanTraverse True emptyCache
        = Some (\<lparr>movementDistance = 2, canReach = True, directDistance = 3\<rparr>, cache'))"
proof -
  have far: "1 < int (distance (mkHex 0 0 1) (mkHex 3 0 2))"
    by (simp add: distance_def mkHex_def)
  have path: "findPath (mkHex 0 0 1) (mkHex 3 0 2) (discGrid 4) defaultCanTraverse
       = Some (Some [mkHex 0 0 1, mkHex 1 0 (-1), mkHex 2 0 (-1), mkHex 3 0 (-1)])"
    by code_simp
  have hit: "distanceCallCoherent (mkHex 0 0 1) (mkHex 3 0 2) 1 (discGrid 4) defaultCanTraverse
       boardCache"
    by code_simp
  have entry: "fst (getEffectiveDistance (generatePathCacheKey 1 2 1) boardCache)
       = Some \<lparr>movementDistance = 2, canReach = True, directDistance = 3\<rparr>"
    by code_simp
  have miss: "distanceCallCoherent (mkHex 0 0 1) (mkHex 3 0 2) 1 (discGrid 4) defaultCanTraverse
       emptyCache"
    by code_simp
  have d: "distance (mkHex 0 0 1) (mkHex 3 0 2) = 3"
    by (simp add: distance_def mkHex_def)
  show ?thesis
    using effective_distance_path_found [OF far path, of True boardCache]
      effective_distance_path_found [OF far path, of True emptyCache]
      far path hit entry miss
    by (simp add: d numeral_eq_enat)
qed

text \<open>
  Claim C8, as amended. When the hex distance from start to goal exceeds the range and
  \<open>findPath\<close> returns \<^verbatim>\<open>null\<close>, \<open>calculateEffectiveDistance\<close> returns a value (it does not
  fail): \<open>canReach = False\<close>, an infinite movement distance, and the hex distance as direct
  distance, provided that caching is disabled or the cache is coherent with the call: it
  holds no entry under the key of the call, or the entry it holds there is what the call
  computes without a cache.
\<close>

theorem effective_distance_no_path:
  assumes "rng < int (distance start goal)"
    and "findPath start goal getTile canTraverse = Some None"
    and "cachingEnabled \<longrightarrow> distanceCallCoherent start goal rng getTile canTraverse cache"
  shows "\<exists>cache'. calculateEffectiveDistance start goal rng getTile canTraverse cachingEnabled cache
            = Some (\<lparr>movementDistance = \<infinity>, canReach = False,
                      directDistance = distance start goal\<rparr>, cache')"
proof -
  have "Some \<lparr>movementDistance = \<infinity>, canReach = False, directDistance = distance start goal\<rparr>
        = map_option fst
            (calculateEffectiveDistance start goal rng getTile canTraverse cachingEnabled cache)"
    unfolding calculateEffectiveDistance_coherent [OF assms(3)]
      computeDistance_no_path [OF assms(1,2)]
    by (rule refl)
  then show ?thesis by (rule map_option_fst_Some)
qed

text \<open>
  Claim C8 as stated fails on a cache hit: after a search on an open board, the call for
  the same pair on the board without tiles, where the distance exceeds the range and
  \<open>findPath\<close> returns \<^verbatim>\<open>null\<close>, returns the stored result, reachable with two moves.
\<close>

theorem stale_reachable_entry_counterexample:
  "calculateEffectiveDistance (mkHex 0 0 1) (mkHex 3 0 2) 1 (discGrid 4) defaultCanTraverse True
     emptyCache
     = Some (\<lparr>movementDistance = 2, canReach = True, directDistance = 3\<rparr>, boardCache)
   \<and> 1 < int (distance (mkHex 0 0 1) (mkHex 3 0 2))
   \<and> findPath (mkHex 0 0 1) (mkHex 3 0 2) noTiles defaultCanTraverse = Some None
   \<and> map_option fst
       (calculateEffectiveDistance (mkHex 0 0 1) (mkHex 3 0 2) 1 noTiles defaultCanTraverse True
          boardCache)
       = Some \<lparr>movementDistance = 2, canReach = True, directDistance = 3\<rparr>"
  by code_simp

theorem effective_distance_no_path_witness:
  "1 < int (distance (mkHex 0 0 1) (mkHex 3 0 2))
   \<and> findPath (mkHex 0 0 1) (mkHex 3 0 2) noTiles defaultCanTraverse = Some None
   \<and> distanceCallCoherent (mkHex 0 0 1) (mkHex 3 0 2) 1 noTiles defaultCanTraverse noTilesCache
   \<and> fst (getEffectiveDistance (generatePathCacheKey 1 2 1) noTilesCache)
       = Some \<lparr>movementDistance = \<infinity>, canReach = False, directDistance = 3\<rparr>
   \<and> (\<exists>cache'. calculateEffectiveDistance (mkHex 0 0 1) (mkHex 3 0 2) 1 noTiles
          defaultCanTraverse True noTilesCache
        = Some (\<lparr>movementDistance = \<infinity>, canReach = False, directDistance = 3\<rparr>, cache'))
   \<and> distanceCallCoherent (mkHex 0 0 1) (mkHex 3 0 2) 1 (discGrid 2) defaultCanTraverse
       emptyCache
   \<and> findPath (mkHex 0 0 1) (mkHex 3 0 2) (discGrid 2) defaultCanTraverse = Some None
   \<and> (\<exists>cache'. calculateEffectiveDistance (mkHex 0 0 1) (mkHex 3 0 2) 1 (discGrid 2)
          defaultCanTraverse True emptyCache
        = Some (\<lparr>movementDistance = \<infinity>, canReach = False, directDistance = 3\<rparr>, cache'))"
proof -
  have far: "1 < int (distance (mkHex 0 0 1) (mkHex 3 0 2))"
    by (simp add: distance_def mkHex_def)
  have nopath: "findPath (mkHex 0 0 1) (mkHex 3 0 2) noTiles defaultCanTraverse = Some None"
    by code_simp
  have nopath2: "findPath (mkHex 0 0 1) (mkHex 3 0 2) (discGrid 2) defaultCanTraverse = Some None"
    by code_simp
  have hit: "distanceCallCoherent (mkHex 0 0 1) (mkHex 3 0 2) 1 noTiles defaultCanTraverse
       noTilesCache"
    by code_simp
  have entry: "fst (getEffectiveDistance (generatePathCacheKey 1 2 1) noTilesCache)
       = Some \<lparr>movementDistance = \<infinity>, canReach = False, directDistance = 3\<rparr>"
    by code_simp
  have miss: "distanceCallCoherent (mkHex 0 0 1) (mkHex 3 0 2) 1 (discGrid 2) defaultCanTraverse
       emptyCache"
    by code_simp
  have d: "distance (mkHex 0 0 1) (mkHex 3 0 2) = 3"
    by (simp add: distance_def mkHex_def)
  show ?thesis
    using effective_distance_no_path [OF far nopath, of True noTilesCache]
      effective_distance_no_path [OF far nopath2, of True emptyCache]
      far nopath nopath2 hit entry miss
    by (simp add: d)
qed

end
